theory Spec2Isabelle
  imports Main "HOL-Library.Word"
begin

section \<open>Memory, nodes and the type descriptor\<close>

text \<open>
  The development follows the current revision of \<^verbatim>\<open>map.c\<close> (the one whose
  \<^verbatim>\<open>map_remove\<close> returns a status and whose \<^verbatim>\<open>map_add\<close> calls
  \<^verbatim>\<open>value_free\<close> on update), together with \<^verbatim>\<open>map.h\<close>.

  A pointer is an address; address 0 is \<^verbatim>\<open>NULL\<close>. \<^verbatim>\<open>size_t\<close> is a 64-bit word.
  Byte blocks (key blocks, value blocks, the caller's buffers) and overflow nodes live in
  two stores indexed by address; a block or node that has been freed is absent from its
  store. Undefined behaviour of the C program (reading through a null or dangling
  pointer, freeing what is not allocated, dividing by zero, calling a null function
  pointer, converting a \<^verbatim>\<open>double\<close> that is out of range to \<^verbatim>\<open>size_t\<close>) is a
  \<open>fault\<close> value.
\<close>

type_synonym addr = nat
type_synonym size_t = "64 word"
type_synonym byte = "8 word"
type_synonym bytes = "byte list"

abbreviation NULL :: addr where
  "NULL \<equiv> 0"

datatype fault = BadRead | BadFree | DivByZero | NullCall | BadConversion

record MapNode =
  key :: addr
  "value" :: addr
  "next" :: addr

text \<open>
  The callbacks of \<^verbatim>\<open>MapTypeData\<close>. A callback receives the pointer it is called with
  and the block behind that pointer (\<open>None\<close> when the pointer is null or dangling); a
  result \<open>None\<close> of \<^verbatim>\<open>key_hash\<close> or \<^verbatim>\<open>key_cmp\<close> is a fault inside the callback.
  The disposers \<^verbatim>\<open>key_free\<close> and \<^verbatim>\<open>value_free\<close> act on the resources outside the
  table, of type \<open>'w\<close>; they never release the block they are given (\<^verbatim>\<open>map.h\<close>:
  "DO NOT FREE THE POINTER ITSELF").
\<close>

type_synonym hash_fn = "addr \<Rightarrow> bytes option \<Rightarrow> size_t option"
type_synonym cmp_fn = "addr \<Rightarrow> bytes option \<Rightarrow> addr \<Rightarrow> bytes option \<Rightarrow> int option"
type_synonym 'w free_fn = "addr \<Rightarrow> bytes option \<Rightarrow> 'w \<Rightarrow> 'w"

record 'w MapTypeData =
  key_size :: size_t
  value_size :: size_t
  key_hash :: "hash_fn option"
  key_cmp :: "cmp_fn option"
  key_free :: "'w free_fn option"
  value_free :: "'w free_fn option"

record 'w Map =
  type :: "'w MapTypeData"
  length_m :: size_t
  buckets_count :: size_t
  buckets :: "MapNode list"

text \<open>
  The heap: \<open>mem\<close> holds the live byte blocks, \<open>nodes\<close> the live overflow nodes,
  \<open>brk\<close> is the last address handed out, \<open>outcomes\<close> lists the outcomes of the coming
  allocations (\<open>False\<close>: the allocation fails; an exhausted list: it succeeds), and
  \<open>world\<close> is what the disposers act on.
\<close>

record 'w heap =
  mem :: "addr \<rightharpoonup> bytes"
  nodes :: "addr \<rightharpoonup> MapNode"
  brk :: addr
  outcomes :: "bool list"
  world :: "'w"

definition alloc_ok :: "'w heap \<Rightarrow> bool \<times> 'w heap" where
  "alloc_ok h = (case outcomes h of
       [] \<Rightarrow> (True, h)
     | ok # os \<Rightarrow> (ok, h\<lparr>outcomes := os\<rparr>))"

text \<open>\<^verbatim>\<open>malloc(n)\<close> for a byte block; a fresh block is filled with zero bytes.\<close>

definition malloc :: "nat \<Rightarrow> 'w heap \<Rightarrow> addr \<times> 'w heap" where
  "malloc n h =
     (let (ok, h1) = alloc_ok h in
      if ok then (Suc (brk h1), h1\<lparr>mem := (mem h1)(Suc (brk h1) \<mapsto> replicate n 0), brk := Suc (brk h1)\<rparr>)
      else (NULL, h1))"

text \<open>\<^verbatim>\<open>malloc(sizeof(MapNode))\<close>; the code sets all three fields before it links the node.\<close>

definition malloc_node :: "'w heap \<Rightarrow> addr \<times> 'w heap" where
  "malloc_node h =
     (let (ok, h1) = alloc_ok h in
      if ok then (Suc (brk h1),
                  h1\<lparr>nodes := (nodes h1)(Suc (brk h1) \<mapsto> \<lparr>key = NULL, value = NULL, next = NULL\<rparr>),
                     brk := Suc (brk h1)\<rparr>)
      else (NULL, h1))"

text \<open>\<^verbatim>\<open>free(p)\<close> on a byte block: nothing for \<^verbatim>\<open>NULL\<close>, a fault on a pointer that is not live.\<close>

definition free :: "addr \<Rightarrow> 'w heap \<Rightarrow> fault + 'w heap" where
  "free p h =
     (if p = NULL then Inr h
      else if mem h p = None then Inl BadFree
      else Inr (h\<lparr>mem := (mem h)(p := None)\<rparr>))"

definition free_node :: "addr \<Rightarrow> 'w heap \<Rightarrow> fault + 'w heap" where
  "free_node p h =
     (if p = NULL then Inr h
      else if nodes h p = None then Inl BadFree
      else Inr (h\<lparr>nodes := (nodes h)(p := None)\<rparr>))"

text \<open>\<^verbatim>\<open>memcpy(dst, src, n)\<close>: both blocks must be live and hold \<open>n\<close> bytes.\<close>

definition memcpy :: "addr \<Rightarrow> addr \<Rightarrow> nat \<Rightarrow> 'w heap \<Rightarrow> fault + 'w heap" where
  "memcpy dst src n h =
     (case (mem h dst, mem h src) of
        (Some d, Some s) \<Rightarrow>
          if n \<le> length d \<and> n \<le> length s
          then Inr (h\<lparr>mem := (mem h)(dst \<mapsto> take n s @ drop n d)\<rparr>)
          else Inl BadRead
      | _ \<Rightarrow> Inl BadRead)"

text \<open>Calls through the function pointers of the descriptor.\<close>

definition call_hash :: "'w Map \<Rightarrow> addr \<Rightarrow> 'w heap \<Rightarrow> fault + size_t" where
  "call_hash m k h =
     (case key_hash (type m) of
        None \<Rightarrow> Inl NullCall
      | Some f \<Rightarrow> (case f k (mem h k) of None \<Rightarrow> Inl BadRead | Some x \<Rightarrow> Inr x))"

definition call_cmp :: "'w Map \<Rightarrow> addr \<Rightarrow> addr \<Rightarrow> 'w heap \<Rightarrow> fault + int" where
  "call_cmp m k1 k2 h =
     (case key_cmp (type m) of
        None \<Rightarrow> Inl NullCall
      | Some f \<Rightarrow> (case f k1 (mem h k1) k2 (mem h k2) of None \<Rightarrow> Inl BadRead | Some c \<Rightarrow> Inr c))"

definition call_free :: "'w free_fn option \<Rightarrow> addr \<Rightarrow> 'w heap \<Rightarrow> fault + 'w heap" where
  "call_free fp p h =
     (case fp of
        None \<Rightarrow> Inl NullCall
      | Some f \<Rightarrow> Inr (h\<lparr>world := f p (mem h p) (world h)\<rparr>))"

section \<open>Default strategies\<close>

text \<open>\<^verbatim>\<open>return *(size_t *)key;\<close> reads the first eight bytes of the block, little-endian.\<close>

definition map_default_hash :: hash_fn where
  "map_default_hash k blk =
     (case blk of
        None \<Rightarrow> None
      | Some bs \<Rightarrow> if length bs < 8 then None else Some (word_rcat (rev (take 8 bs))))"

text \<open>\<^verbatim>\<open>if (key1 < key2) return -1; else if (key1 > key2) return 1; else return 0;\<close>\<close>

definition map_default_cmp :: cmp_fn where
  "map_default_cmp key1 blk1 key2 blk2 =
     Some (if key1 < key2 then - 1 else if key1 > key2 then 1 else 0)"

definition map_default_free :: "'w free_fn" where
  "map_default_free p blk w = w"

text \<open>
  \<^verbatim>\<open>map.h\<close>: \<^verbatim>\<open>MAP_TYPE_DEFAULT(key_type, value_type)\<close> is the descriptor with the two
  sizes and \<^verbatim>\<open>map_default_hash\<close>, \<^verbatim>\<open>map_default_cmp\<close>, \<^verbatim>\<open>map_default_free\<close>,
  \<^verbatim>\<open>map_default_free\<close>; \<^verbatim>\<open>MAP(key_type, value_type)\<close> is \<^verbatim>\<open>map_new\<close> of it with
  \<^verbatim>\<open>MAP_DEFAULT_BUCKETS_COUNT\<close> buckets.
\<close>

definition MAP_TYPE_DEFAULT :: "size_t \<Rightarrow> size_t \<Rightarrow> 'w MapTypeData" where
  "MAP_TYPE_DEFAULT key_sz value_sz =
     \<lparr>key_size = key_sz, value_size = value_sz,
      key_hash = Some map_default_hash, key_cmp = Some map_default_cmp,
      key_free = Some map_default_free, value_free = Some map_default_free\<rparr>"

definition MAP_DEFAULT_BUCKETS_COUNT :: size_t where
  "MAP_DEFAULT_BUCKETS_COUNT = 16"

section \<open>The engine\<close>

text \<open>
  A non-null \<^verbatim>\<open>MapNode *\<close> points either at a slot of the bucket array
  (\<^verbatim>\<open>&map->buckets[i]\<close>) or at a node obtained from \<^verbatim>\<open>malloc\<close>.
\<close>

datatype node_ref = Bucket nat | Node addr

definition node_ptr :: "addr \<Rightarrow> node_ref option" where
  "node_ptr a = (if a = NULL then None else Some (Node a))"

definition load :: "'w Map \<Rightarrow> 'w heap \<Rightarrow> node_ref \<Rightarrow> MapNode option" where
  "load m h r =
     (case r of
        Bucket i \<Rightarrow> if i < length (buckets m) then Some (buckets m ! i) else None
      | Node a \<Rightarrow> nodes h a)"

definition store :: "node_ref \<Rightarrow> MapNode \<Rightarrow> 'w Map \<times> 'w heap \<Rightarrow> 'w Map \<times> 'w heap" where
  "store r n mh =
     (case r of
        Bucket i \<Rightarrow> ((fst mh)\<lparr>buckets := (buckets (fst mh))[i := n]\<rparr>, snd mh)
      | Node a \<Rightarrow> (fst mh, (snd mh)\<lparr>nodes := (nodes (snd mh))(a \<mapsto> n)\<rparr>))"

text \<open>\<^verbatim>\<open>free(node)\<close>: a slot of the bucket array is not a block of its own.\<close>

definition free_ref :: "node_ref \<Rightarrow> 'w heap \<Rightarrow> fault + 'w heap" where
  "free_ref r h = (case r of Bucket i \<Rightarrow> Inl BadFree | Node a \<Rightarrow> free_node a h)"

subsection \<open>\<^verbatim>\<open>map_new\<close>\<close>

text \<open>
  The first allocation is the \<^verbatim>\<open>Map\<close> structure, the second the \<^verbatim>\<open>calloc\<close> of the
  bucket array (taken to return a non-null pointer also for zero buckets when it
  succeeds). \<open>None\<close> is the \<^verbatim>\<open>NULL\<close> result.
\<close>

definition map_new :: "'w MapTypeData \<Rightarrow> size_t \<Rightarrow> 'w heap \<Rightarrow> 'w Map option \<times> 'w heap" where
  "map_new ty n h =
     (let (ok1, h1) = alloc_ok h in
      if \<not> ok1 then (None, h1)
      else
        let ty1 = (if key_hash ty = None then ty\<lparr>key_hash := Some map_default_hash\<rparr> else ty);
            ty2 = (if key_cmp ty1 = None then ty1\<lparr>key_cmp := Some map_default_cmp\<rparr> else ty1);
            ty3 = (if key_free ty2 = None then ty2\<lparr>key_free := Some map_default_free\<rparr> else ty2);
            ty4 = (if value_free ty3 = None then ty3\<lparr>value_free := Some map_default_free\<rparr> else ty3);
            (ok2, h2) = alloc_ok h1
        in if \<not> ok2 then (None, h2)
           else (Some \<lparr>type = ty4, length_m = 0, buckets_count = n,
                        buckets = replicate (unat n) \<lparr>key = NULL, value = NULL, next = NULL\<rparr>\<rparr>, h2))"

subsection \<open>\<^verbatim>\<open>map_add\<close>\<close>

text \<open>The function is named \<open>map_add_kv\<close> here: \<open>map_add\<close> is the sum of two maps in HOL.\<close>

text \<open>The branch "First time accessing this bucket": the slot \<open>index\<close> holds \<open>node\<close>.\<close>

definition map_add_first ::
  "'w Map \<Rightarrow> nat \<Rightarrow> MapNode \<Rightarrow> addr \<Rightarrow> addr \<Rightarrow> 'w heap \<Rightarrow> fault + (int \<times> 'w Map \<times> 'w heap)" where
  "map_add_first m index node k v h =
     (let (kp, h1) = malloc (unat (key_size (type m))) h;
          m1 = m\<lparr>buckets := (buckets m)[index := node\<lparr>key := kp\<rparr>]\<rparr>
      in if kp = NULL then Inr (- 1, m1, h1)
         else
           let (vp, h2) = malloc (unat (value_size (type m))) h1;
               m2 = m1\<lparr>buckets := (buckets m1)[index := node\<lparr>key := kp, value := vp\<rparr>]\<rparr>
           in if vp = NULL
              then (case free kp h2 of Inl e \<Rightarrow> Inl e | Inr h3 \<Rightarrow> Inr (- 1, m2, h3))
              else
                (case memcpy kp k (unat (key_size (type m))) h2 of
                   Inl e \<Rightarrow> Inl e
                 | Inr h3 \<Rightarrow>
                     (case memcpy vp v (unat (value_size (type m))) h3 of
                        Inl e \<Rightarrow> Inl e
                      | Inr h4 \<Rightarrow> Inr (0, m2\<lparr>length_m := length_m m2 + 1\<rparr>, h4))))"

text \<open>"Key already contained, update value": \<open>n\<close> is the node that matched.\<close>

definition map_add_update ::
  "'w Map \<Rightarrow> addr \<Rightarrow> MapNode \<Rightarrow> 'w heap \<Rightarrow> fault + (int \<times> 'w Map \<times> 'w heap)" where
  "map_add_update m v n h =
     (case call_free (value_free (type m)) (value n) h of
        Inl e \<Rightarrow> Inl e
      | Inr h1 \<Rightarrow>
          (case memcpy (value n) v (unat (value_size (type m))) h1 of
             Inl e \<Rightarrow> Inl e
           | Inr h2 \<Rightarrow> Inr (1, m, h2)))"

text \<open>"Add node": the part after the loop; \<open>node\<close> is where the loop stopped.\<close>

definition map_add_append ::
  "'w Map \<Rightarrow> addr \<Rightarrow> addr \<Rightarrow> node_ref \<Rightarrow> 'w heap \<Rightarrow> fault + (int \<times> 'w Map \<times> 'w heap)" where
  "map_add_append m k v node h =
     (let (new_node, h1) = malloc_node h
      in if new_node = NULL then Inr (- 1, m, h1)
         else
           let (kp, h2) = malloc (unat (key_size (type m))) h1
           in if kp = NULL
              then (case free_node new_node h2 of Inl e \<Rightarrow> Inl e | Inr h3 \<Rightarrow> Inr (- 1, m, h3))
              else
                let (vp, h3) = malloc (unat (value_size (type m))) h2
                in if vp = NULL
                   then (case free kp h3 of
                           Inl e \<Rightarrow> Inl e
                         | Inr h4 \<Rightarrow>
                             (case free_node new_node h4 of Inl e \<Rightarrow> Inl e | Inr h5 \<Rightarrow> Inr (- 1, m, h5)))
                   else
                     (case memcpy kp k (unat (key_size (type m))) h3 of
                        Inl e \<Rightarrow> Inl e
                      | Inr h4 \<Rightarrow>
                          (case memcpy vp v (unat (value_size (type m))) h4 of
                             Inl e \<Rightarrow> Inl e
                           | Inr h5 \<Rightarrow>
                               let h6 = h5\<lparr>nodes := (nodes h5)(new_node \<mapsto> \<lparr>key = kp, value = vp, next = NULL\<rparr>)\<rparr>
                               in (case load m h6 node of
                                     None \<Rightarrow> Inl BadRead
                                   | Some n \<Rightarrow>
                                       let (m1, h7) = store node (n\<lparr>next := new_node\<rparr>) (m, h6)
                                       in Inr (0, m1\<lparr>length_m := length_m m1 + 1\<rparr>, h7)))))"

text \<open>
  \<^verbatim>\<open>while (node->next != NULL) { if (key_cmp(node->key, key) == 0) {...; return 1;} node = node->next; }\<close>
  followed by "Add node". A chain may be cyclic in an arbitrary heap, so the loop is a
  partial function: \<open>None\<close> is a loop that does not return.
\<close>

partial_function (option) map_add_loop ::
  "'w Map \<Rightarrow> addr \<Rightarrow> addr \<Rightarrow> node_ref \<Rightarrow> 'w heap \<Rightarrow> (fault + (int \<times> 'w Map \<times> 'w heap)) option" where
  "map_add_loop m k v node h =
     (case load m h node of
        None \<Rightarrow> Some (Inl BadRead)
      | Some n \<Rightarrow>
          if next n \<noteq> NULL then
            (case call_cmp m (key n) k h of
               Inl e \<Rightarrow> Some (Inl e)
             | Inr c \<Rightarrow>
                 if c = 0 then Some (map_add_update m v n h)
                 else map_add_loop m k v (Node (next n)) h)
          else Some (map_add_append m k v node h))"

definition map_add_kv ::
  "'w Map \<Rightarrow> addr \<Rightarrow> addr \<Rightarrow> 'w heap \<Rightarrow> (fault + (int \<times> 'w Map \<times> 'w heap)) option" where
  "map_add_kv m k v h =
     (case call_hash m k h of
        Inl e \<Rightarrow> Some (Inl e)
      | Inr hash \<Rightarrow>
          if buckets_count m = 0 then Some (Inl DivByZero)
          else
            let index = unat (hash mod buckets_count m)
            in (case load m h (Bucket index) of
                  None \<Rightarrow> Some (Inl BadRead)
                | Some node \<Rightarrow>
                    if key node = NULL \<and> value node = NULL
                    then Some (map_add_first m index node k v h)
                    else map_add_loop m k v (Bucket index) h))"

subsection \<open>\<^verbatim>\<open>map_get\<close>\<close>

partial_function (option) map_get_loop ::
  "'w Map \<Rightarrow> addr \<Rightarrow> node_ref option \<Rightarrow> 'w heap \<Rightarrow> (fault + addr) option" where
  "map_get_loop m k node h =
     (case node of
        None \<Rightarrow> Some (Inr NULL)
      | Some r \<Rightarrow>
          (case load m h r of
             None \<Rightarrow> Some (Inl BadRead)
           | Some n \<Rightarrow>
               if key n = NULL \<and> value n = NULL then Some (Inr NULL)
               else
                 (case call_cmp m (key n) k h of
                    Inl e \<Rightarrow> Some (Inl e)
                  | Inr cmp \<Rightarrow>
                      if cmp = 0 then Some (Inr (value n))
                      else map_get_loop m k (node_ptr (next n)) h)))"

definition map_get :: "'w Map \<Rightarrow> addr \<Rightarrow> 'w heap \<Rightarrow> (fault + addr) option" where
  "map_get m k h =
     (case call_hash m k h of
        Inl e \<Rightarrow> Some (Inl e)
      | Inr hash \<Rightarrow>
          if buckets_count m = 0 then Some (Inl DivByZero)
          else map_get_loop m k (Some (Bucket (unat (hash mod buckets_count m)))) h)"

subsection \<open>\<^verbatim>\<open>map_remove\<close>\<close>

text \<open>
  "Found key, remove node": \<open>node\<close> is the matching node, \<open>n\<close> its contents and
  \<open>prev\<close> its predecessor in the chain (\<open>None\<close> for \<^verbatim>\<open>NULL\<close>).
\<close>

definition map_remove_found ::
  "'w Map \<Rightarrow> node_ref \<Rightarrow> MapNode \<Rightarrow> node_ref option \<Rightarrow> 'w heap \<Rightarrow> fault + (int \<times> 'w Map \<times> 'w heap)" where
  "map_remove_found m node n prev h =
     (case call_free (key_free (type m)) (key n) h of
        Inl e \<Rightarrow> Inl e
      | Inr h1 \<Rightarrow>
     (case call_free (value_free (type m)) (value n) h1 of
        Inl e \<Rightarrow> Inl e
      | Inr h2 \<Rightarrow>
     (case free (key n) h2 of
        Inl e \<Rightarrow> Inl e
      | Inr h3 \<Rightarrow>
     (case free (value n) h3 of
        Inl e \<Rightarrow> Inl e
      | Inr h4 \<Rightarrow>
     (case prev of
        Some p \<Rightarrow>
          (case load m h4 p of
             None \<Rightarrow> Inl BadRead
           | Some pn \<Rightarrow>
               let (m1, h5) = store p (pn\<lparr>next := next n\<rparr>) (m, h4)
               in (case free_ref node h5 of
                     Inl e \<Rightarrow> Inl e
                   | Inr h6 \<Rightarrow> Inr (0, m1\<lparr>length_m := length_m m1 - 1\<rparr>, h6)))
      | None \<Rightarrow>
          let (m1, h5) = store node (n\<lparr>key := NULL, value := NULL\<rparr>) (m, h4)
          in if next n \<noteq> NULL then
               (case nodes h5 (next n) of
                  None \<Rightarrow> Inl BadRead
                | Some nx \<Rightarrow>
                    let (m2, h6) = store node nx (m1, h5)
                    in (case free_node (next n) h6 of
                          Inl e \<Rightarrow> Inl e
                        | Inr h7 \<Rightarrow> Inr (0, m2\<lparr>length_m := length_m m2 - 1\<rparr>, h7)))
             else Inr (0, m1\<lparr>length_m := length_m m1 - 1\<rparr>, h5))))))"

text \<open>
  \<^verbatim>\<open>while (node != NULL) { if (node->key && (key_cmp(node->key, key) == 0)) {...; return 0;}
  prev = node; node = node->next; } return -1;\<close>
\<close>

partial_function (option) map_remove_loop ::
  "'w Map \<Rightarrow> addr \<Rightarrow> node_ref option \<Rightarrow> node_ref option \<Rightarrow> 'w heap \<Rightarrow>
   (fault + (int \<times> 'w Map \<times> 'w heap)) option" where
  "map_remove_loop m k node prev h =
     (case node of
        None \<Rightarrow> Some (Inr (- 1, m, h))
      | Some r \<Rightarrow>
          (case load m h r of
             None \<Rightarrow> Some (Inl BadRead)
           | Some n \<Rightarrow>
               if key n = NULL then map_remove_loop m k (node_ptr (next n)) (Some r) h
               else
                 (case call_cmp m (key n) k h of
                    Inl e \<Rightarrow> Some (Inl e)
                  | Inr c \<Rightarrow>
                      if c = 0 then Some (map_remove_found m r n prev h)
                      else map_remove_loop m k (node_ptr (next n)) (Some r) h)))"

definition map_remove ::
  "'w Map \<Rightarrow> addr \<Rightarrow> 'w heap \<Rightarrow> (fault + (int \<times> 'w Map \<times> 'w heap)) option" where
  "map_remove m k h =
     (case call_hash m k h of
        Inl e \<Rightarrow> Some (Inl e)
      | Inr hash \<Rightarrow>
          if buckets_count m = 0 then Some (Inl DivByZero)
          else map_remove_loop m k (Some (Bucket (unat (hash mod buckets_count m)))) None h)"

subsection \<open>\<^verbatim>\<open>map_count_collisions\<close>\<close>

text \<open>\<^verbatim>\<open>while (node->next != NULL) { collisions++; node = node->next; }\<close>\<close>

partial_function (option) count_chain :: "'w heap \<Rightarrow> addr \<Rightarrow> size_t \<Rightarrow> (fault + size_t) option" where
  "count_chain h node collisions =
     (case nodes h node of
        None \<Rightarrow> Some (Inl BadRead)
      | Some n \<Rightarrow>
          if next n \<noteq> NULL then count_chain h (next n) (collisions + 1)
          else Some (Inr collisions))"

text \<open>The loop \<^verbatim>\<open>for (i = 0; i < map->buckets_count; i++)\<close>, from index \<open>i\<close> on.\<close>

function count_buckets :: "'w Map \<Rightarrow> 'w heap \<Rightarrow> nat \<Rightarrow> size_t \<Rightarrow> (fault + size_t) option" where
  "count_buckets m h i collisions =
     (if i < unat (buckets_count m) then
        (case load m h (Bucket i) of
           None \<Rightarrow> Some (Inl BadRead)
         | Some b \<Rightarrow>
             if next b \<noteq> NULL then
               (case count_chain h (next b) (collisions + 1) of
                  None \<Rightarrow> None
                | Some (Inl e) \<Rightarrow> Some (Inl e)
                | Some (Inr c) \<Rightarrow> count_buckets m h (Suc i) c)
             else count_buckets m h (Suc i) collisions)
      else Some (Inr collisions))"
  by pat_completeness auto
termination
  by (relation "measure (\<lambda>(m, h, i, c). unat (buckets_count m) - i)") auto

declare count_buckets.simps [simp del]

definition map_count_collisions :: "'w Map \<Rightarrow> 'w heap \<Rightarrow> (fault + size_t) option" where
  "map_count_collisions m h = count_buckets m h 0 0"

subsection \<open>\<^verbatim>\<open>map_free\<close>\<close>

text \<open>
  The inner loop of \<^verbatim>\<open>map_free\<close>; \<open>c\<close> counts the nodes of the chain already visited, so
  that the slot itself is not passed to \<^verbatim>\<open>free\<close>. The decrement of \<^verbatim>\<open>map->length\<close> is
  left out: the structure is released at the end and the field is not read before.
\<close>

definition free_if_set :: "'w free_fn option \<Rightarrow> addr \<Rightarrow> 'w heap \<Rightarrow> fault + 'w heap" where
  "free_if_set fp p h = (if fp = None then Inr h else call_free fp p h)"

partial_function (option) map_free_chain ::
  "'w Map \<Rightarrow> node_ref option \<Rightarrow> nat \<Rightarrow> 'w heap \<Rightarrow> (fault + 'w heap) option" where
  "map_free_chain m node c h =
     (case node of
        None \<Rightarrow> Some (Inr h)
      | Some r \<Rightarrow>
          (case load m h r of
             None \<Rightarrow> Some (Inl BadRead)
           | Some n \<Rightarrow>
          (case free_if_set (key_free (type m)) (key n) h of
             Inl e \<Rightarrow> Some (Inl e)
           | Inr h1 \<Rightarrow>
          (case free_if_set (value_free (type m)) (value n) h1 of
             Inl e \<Rightarrow> Some (Inl e)
           | Inr h2 \<Rightarrow>
          (case free (key n) h2 of
             Inl e \<Rightarrow> Some (Inl e)
           | Inr h3 \<Rightarrow>
          (case free (value n) h3 of
             Inl e \<Rightarrow> Some (Inl e)
           | Inr h4 \<Rightarrow>
          (case (if c > 0 then free_ref r h4 else Inr h4) of
             Inl e \<Rightarrow> Some (Inl e)
           | Inr h5 \<Rightarrow> map_free_chain m (node_ptr (next n)) (Suc c) h5)))))))"

function map_free_buckets :: "'w Map \<Rightarrow> nat \<Rightarrow> 'w heap \<Rightarrow> (fault + 'w heap) option" where
  "map_free_buckets m i h =
     (if i < unat (buckets_count m) then
        (case map_free_chain m (Some (Bucket i)) 0 h of
           None \<Rightarrow> None
         | Some (Inl e) \<Rightarrow> Some (Inl e)
         | Some (Inr h1) \<Rightarrow> map_free_buckets m (Suc i) h1)
      else Some (Inr h))"
  by pat_completeness auto
termination
  by (relation "measure (\<lambda>(m, i, h). unat (buckets_count m) - i)") auto

declare map_free_buckets.simps [simp del]

text \<open>The bucket array and the structure are values here; releasing them leaves no trace.\<close>

definition map_free :: "'w Map \<Rightarrow> 'w heap \<Rightarrow> (fault + 'w heap) option" where
  "map_free m h = map_free_buckets m 0 h"

subsection \<open>\<^verbatim>\<open>map_optimize\<close>\<close>

text \<open>
  \<^verbatim>\<open>(size_t)((double)map->length / 0.75)\<close>, with the arithmetic of IEEE 754 binary64
  in its default rounding (to nearest, ties to even): a \<^verbatim>\<open>double\<close> has a significand of
  53 bits. \<open>bit_length n\<close> is the number of binary digits of a positive \<open>n\<close>, and
  \<open>round_even a b\<close> is the integer nearest to \<open>a / b\<close>, the even one of two that are
  equally near.
\<close>

function bit_length :: "int \<Rightarrow> nat" where
  "bit_length n = (if n \<le> 0 then 0 else Suc (bit_length (n div 2)))"
  by pat_completeness auto
termination
  by (relation "measure nat") auto

declare bit_length.simps [simp del]

definition round_even :: "int \<Rightarrow> int \<Rightarrow> int" where
  "round_even a b =
     (let q = a div b; r = a mod b
      in if b < 2 * r \<or> (2 * r = b \<and> odd q) then q + 1 else q)"

text \<open>
  \<open>double_quotient a b\<close> is the integer part of the \<^verbatim>\<open>double\<close> nearest to the quotient
  \<open>a / b\<close>, for \<open>a = 0\<close> or \<open>a / b\<close> at least 1 and in the range of the normal
  numbers: with \<open>e\<close> the number of binary digits of the integer part of \<open>a / b\<close>,
  the quotient is rounded to a multiple of \<open>2 ^ (e - 53)\<close>. The conversion
  \<^verbatim>\<open>(double)n\<close> of an integer is \<open>double_quotient n 1\<close>; it is exact below
  \<open>2 ^ 53\<close>. Dividing the double \<open>x\<close> by 0.75, which is a double, gives the double
  nearest to \<open>4 * x / 3\<close>. The conversion to \<^verbatim>\<open>size_t\<close> drops the fraction and is
  undefined from \<open>2 ^ 64\<close> on.
\<close>

definition double_quotient :: "int \<Rightarrow> int \<Rightarrow> int" where
  "double_quotient a b =
     (if a = 0 then 0
      else
        let e = bit_length (a div b)
        in if 53 \<le> e then round_even a (b * 2 ^ (e - 53)) * 2 ^ (e - 53)
           else round_even (a * 2 ^ (53 - e)) b div 2 ^ (53 - e))"

definition optimize_target :: "size_t \<Rightarrow> fault + size_t" where
  "optimize_target len =
     (let x = double_quotient (uint len) 1;
          y = double_quotient (4 * x) 3
      in if y < 2 ^ 64 then Inr (word_of_int y) else Inl BadConversion)"

text \<open>
  The inner loop: \<^verbatim>\<open>while (node != NULL) { map_add(new_map, node->key, node->value);
  node = node->next; }\<close>. The status returned by \<^verbatim>\<open>map_add\<close> is dropped, as in the code.
  \<^verbatim>\<open>map_add\<close> reads \<^verbatim>\<open>map->type\<close> first, a fault when \<^verbatim>\<open>new_map\<close> is \<^verbatim>\<open>NULL\<close>.
\<close>

partial_function (option) map_optimize_chain ::
  "'w Map \<Rightarrow> node_ref option \<Rightarrow> 'w Map option \<Rightarrow> 'w heap \<Rightarrow>
   (fault + ('w Map option \<times> 'w heap)) option" where
  "map_optimize_chain m node new_map h =
     (case node of
        None \<Rightarrow> Some (Inr (new_map, h))
      | Some r \<Rightarrow>
          (case load m h r of
             None \<Rightarrow> Some (Inl BadRead)
           | Some n \<Rightarrow>
               (case new_map of
                  None \<Rightarrow> Some (Inl BadRead)
                | Some nm \<Rightarrow>
                    (case map_add_kv nm (key n) (value n) h of
                       None \<Rightarrow> None
                     | Some (Inl e) \<Rightarrow> Some (Inl e)
                     | Some (Inr (rc, nm1, h1)) \<Rightarrow>
                         map_optimize_chain m (node_ptr (next n)) (Some nm1) h1))))"

function map_optimize_buckets ::
  "'w Map \<Rightarrow> nat \<Rightarrow> 'w Map option \<Rightarrow> 'w heap \<Rightarrow> (fault + ('w Map option \<times> 'w heap)) option" where
  "map_optimize_buckets m i new_map h =
     (if i < unat (buckets_count m) then
        (case map_optimize_chain m (Some (Bucket i)) new_map h of
           None \<Rightarrow> None
         | Some (Inl e) \<Rightarrow> Some (Inl e)
         | Some (Inr (new_map1, h1)) \<Rightarrow> map_optimize_buckets m (Suc i) new_map1 h1)
      else Some (Inr (new_map, h)))"
  by pat_completeness auto
termination
  by (relation "measure (\<lambda>(m, i, nm, h). unat (buckets_count m) - i)") auto

declare map_optimize_buckets.simps [simp del]

text \<open>The result is the new value of \<^verbatim>\<open>*inp\<close> (\<open>None\<close> for \<^verbatim>\<open>NULL\<close>).\<close>

definition map_optimize ::
  "'w Map \<Rightarrow> 'w heap \<Rightarrow> (fault + ('w Map option \<times> 'w heap)) option" where
  "map_optimize m h =
     (case optimize_target (length_m m) of
        Inl e \<Rightarrow> Some (Inl e)
      | Inr new_buckets_count \<Rightarrow>
          let (new_map, h1) = map_new (type m) new_buckets_count h
          in (case map_optimize_buckets m 0 new_map h1 of
                None \<Rightarrow> None
              | Some (Inl e) \<Rightarrow> Some (Inl e)
              | Some (Inr (new_map1, h2)) \<Rightarrow>
                  (case map_free (m\<lparr>type := (type m)\<lparr>key_free := None, value_free := None\<rparr>\<rparr>) h2 of
                     None \<Rightarrow> None
                   | Some (Inl e) \<Rightarrow> Some (Inl e)
                   | Some (Inr h3) \<Rightarrow> Some (Inr (new_map1, h3)))))"

text \<open>The loops are evaluated through their defining equations.\<close>

declare map_add_loop.simps [code]
declare map_get_loop.simps [code]
declare map_remove_loop.simps [code]
declare count_chain.simps [code]
declare map_free_chain.simps [code]
declare map_optimize_chain.simps [code]

section \<open>The strategies and the set-up of the test suite\<close>

text \<open>
  \<^verbatim>\<open>test.c\<close>: \<^verbatim>\<open>size_t int_hash(const void *key) { return *(int *)key; }\<close> and
  \<^verbatim>\<open>int int_cmp(const void *a, const void *b) { return *(int *)a - *(int *)b; }\<close>.
  The \<^verbatim>\<open>int\<close> is the first four bytes of the block; a difference outside the range
  of \<^verbatim>\<open>int\<close> is a signed overflow.
\<close>

definition int_hash :: hash_fn where
  "int_hash k blk =
     (case blk of
        None \<Rightarrow> None
      | Some bs \<Rightarrow>
          if length bs < 4 then None
          else Some (scast (word_rcat (rev (take 4 bs)) :: 32 word)))"

definition int_cmp :: cmp_fn where
  "int_cmp a blka b blkb =
     (case (blka, blkb) of
        (Some x, Some y) \<Rightarrow>
          if length x < 4 \<or> length y < 4 then None
          else
            let d = sint (word_rcat (rev (take 4 x)) :: 32 word)
                  - sint (word_rcat (rev (take 4 y)) :: 32 word)
            in if - (2 ^ 31) \<le> d \<and> d < 2 ^ 31 then Some d else None
      | _ \<Rightarrow> None)"

text \<open>\<^verbatim>\<open>MAP_TYPE(int, int, int_hash, int_cmp, NULL, NULL)\<close> of \<^verbatim>\<open>Map_Local_Value\<close>.\<close>

definition int_type :: "'w MapTypeData" where
  "int_type = \<lparr>key_size = 4, value_size = 4, key_hash = Some int_hash,
                key_cmp = Some int_cmp, key_free = None, value_free = None\<rparr>"

text \<open>
  A client with three \<^verbatim>\<open>int\<close> variables, the key 7 at address 1 and the values 10 and
  20 at addresses 2 and 3; \<open>os\<close> are the outcomes of the allocations to come.
\<close>

definition client_heap :: "bool list \<Rightarrow> unit heap" where
  "client_heap os =
     \<lparr>mem = [1 \<mapsto> [7, 0, 0, 0], 2 \<mapsto> [10, 0, 0, 0], 3 \<mapsto> [20, 0, 0, 0]],
      nodes = Map.empty, brk = 3, outcomes = os, world = ()\<rparr>"

text \<open>
  A client of \<^verbatim>\<open>MAP(size_t, int)\<close>: two \<^verbatim>\<open>size_t\<close> variables that both hold 5, at
  the addresses 1 and 2, a third that holds 21 at address 3, and the \<^verbatim>\<open>int\<close> 10 at
  address 4; every allocation succeeds.
\<close>

definition word_client_heap :: "unit heap" where
  "word_client_heap =
     \<lparr>mem = [1 \<mapsto> [5, 0, 0, 0, 0, 0, 0, 0], 2 \<mapsto> [5, 0, 0, 0, 0, 0, 0, 0],
             3 \<mapsto> [21, 0, 0, 0, 0, 0, 0, 0], 4 \<mapsto> [10, 0, 0, 0]],
      nodes = Map.empty, brk = 4, outcomes = [], world = ()\<rparr>"

section \<open>Reachable tables\<close>

text \<open>
  A slot is empty when its key and value pointers are both null; this is the test of
  \<^verbatim>\<open>map_add\<close> and \<^verbatim>\<open>map_get\<close>.
\<close>

definition empty_slot :: "MapNode \<Rightarrow> bool" where
  "empty_slot n \<longleftrightarrow> key n = NULL \<and> value n = NULL"

definition heads_ok :: "MapNode list \<Rightarrow> bool" where
  "heads_ok bs \<longleftrightarrow> (\<forall>b \<in> set bs. empty_slot b \<longrightarrow> next b = NULL)"

definition nodes_keyed :: "(addr \<rightharpoonup> MapNode) \<Rightarrow> bool" where
  "nodes_keyed ns \<longleftrightarrow> (\<forall>a n. ns a = Some n \<longrightarrow> key n \<noteq> NULL)"

definition ref_ok :: "'w Map \<Rightarrow> node_ref \<Rightarrow> bool" where
  "ref_ok m r \<longleftrightarrow>
     (case r of
        Bucket i \<Rightarrow> i < length (buckets m) \<and> \<not> empty_slot (buckets m ! i)
      | Node a \<Rightarrow> True)"

text \<open>
  The tables a client can reach: \<^verbatim>\<open>map_new\<close> in a heap without overflow nodes, then
  any \<^verbatim>\<open>map_add\<close> and \<^verbatim>\<open>map_remove\<close> that return (whatever their status, so
  failed allocations are included). Between two calls the client may change the byte
  memory, the outcomes of the coming allocations and the outside resources, and the
  allocator may continue at any address (so that it may hand out a freed address again).
\<close>

inductive reachable :: "'w Map \<Rightarrow> 'w heap \<Rightarrow> bool" where
  construct: "nodes h = Map.empty \<Longrightarrow> map_new ty n h = (Some m, h') \<Longrightarrow> reachable m h'"
| insert: "reachable m h \<Longrightarrow> map_add_kv m k v h = Some (Inr (rc, m', h')) \<Longrightarrow> reachable m' h'"
| remove: "reachable m h \<Longrightarrow> map_remove m k h = Some (Inr (rc, m', h')) \<Longrightarrow> reachable m' h'"
| client: "reachable m h \<Longrightarrow> reachable m (h\<lparr>mem := mem', brk := b, outcomes := os, world := w\<rparr>)"

section \<open>A table whose disposers keep a log\<close>

text \<open>
  The outside resources are the list of the calls made to the disposers, each with the
  pointer passed and the block behind it at the time of the call.
\<close>

definition log_type :: "(addr \<times> bytes option) list MapTypeData" where
  "log_type = \<lparr>key_size = 4, value_size = 4, key_hash = Some int_hash, key_cmp = Some int_cmp,
                key_free = Some (\<lambda>p blk w. w @ [(p, blk)]),
                value_free = Some (\<lambda>p blk w. w @ [(p, blk)])\<rparr>"

text \<open>
  A client with the keys 8, 10, 7 and 12 at the addresses 1 to 4 and the values 80, 100,
  70 and 120 at the addresses 5 to 8.
\<close>

definition log_client_heap :: "(addr \<times> bytes option) list heap" where
  "log_client_heap =
     \<lparr>mem = [1 \<mapsto> [8, 0, 0, 0], 2 \<mapsto> [10, 0, 0, 0], 3 \<mapsto> [7, 0, 0, 0], 4 \<mapsto> [12, 0, 0, 0],
             5 \<mapsto> [80, 0, 0, 0], 6 \<mapsto> [100, 0, 0, 0], 7 \<mapsto> [70, 0, 0, 0], 8 \<mapsto> [120, 0, 0, 0]],
      nodes = Map.empty, brk = 8, outcomes = [], world = []\<rparr>"

text \<open>
  The table this client gets from \<^verbatim>\<open>map_new\<close> with two buckets and \<^verbatim>\<open>map_add\<close> of
  the keys 8, 10, 12 and 7, each with ten times the key as its value: the first bucket
  holds 8, 10 and 12 (its slot, then the overflow nodes 11 and 14), the second holds 7.
\<close>

definition chained_table :: "(addr \<times> bytes option) list Map" where
  "chained_table = \<lparr>type = log_type, length_m = 4, buckets_count = 2,
                      buckets = [\<lparr>key = 9, value = 10, next = 11\<rparr>,
                                 \<lparr>key = 17, value = 18, next = NULL\<rparr>]\<rparr>"

definition chained_heap :: "(addr \<times> bytes option) list heap" where
  "chained_heap =
     \<lparr>mem = [1 \<mapsto> [8, 0, 0, 0], 2 \<mapsto> [10, 0, 0, 0], 3 \<mapsto> [7, 0, 0, 0], 4 \<mapsto> [12, 0, 0, 0],
             5 \<mapsto> [80, 0, 0, 0], 6 \<mapsto> [100, 0, 0, 0], 7 \<mapsto> [70, 0, 0, 0], 8 \<mapsto> [120, 0, 0, 0],
             9 \<mapsto> [8, 0, 0, 0], 10 \<mapsto> [80, 0, 0, 0], 12 \<mapsto> [10, 0, 0, 0], 13 \<mapsto> [100, 0, 0, 0],
             15 \<mapsto> [12, 0, 0, 0], 16 \<mapsto> [120, 0, 0, 0], 17 \<mapsto> [7, 0, 0, 0], 18 \<mapsto> [70, 0, 0, 0]],
      nodes = [14 \<mapsto> \<lparr>key = 15, value = 16, next = NULL\<rparr>,
               11 \<mapsto> \<lparr>key = 12, value = 13, next = 14\<rparr>],
      brk = 18, outcomes = [], world = []\<rparr>"

text \<open>
  \<open>untouched h h'\<close>: from \<open>h\<close> to \<open>h'\<close> no disposer has run and no block at an
  address handed out before (at most \<open>brk h\<close>) has been written or released.
\<close>

definition untouched :: "'w heap \<Rightarrow> 'w heap \<Rightarrow> bool" where
  "untouched h h' \<longleftrightarrow> world h' = world h \<and> brk h \<le> brk h' \<and> (\<forall>p \<le> brk h. mem h' p = mem h p)"

section \<open>Chains and well-formed tables\<close>

text \<open>
  \<open>chain ns p as\<close>: following the \<^verbatim>\<open>next\<close> pointers from \<open>p\<close> visits exactly the
  live overflow nodes \<open>as\<close>, in this order, and ends at \<^verbatim>\<open>NULL\<close>.
\<close>

primrec chain :: "(addr \<rightharpoonup> MapNode) \<Rightarrow> addr \<Rightarrow> addr list \<Rightarrow> bool" where
  "chain ns p [] \<longleftrightarrow> p = NULL"
| "chain ns p (a # as) \<longleftrightarrow>
     p = a \<and> a \<noteq> NULL \<and> (case ns a of None \<Rightarrow> False | Some n \<Rightarrow> chain ns (next n) as)"

text \<open>
  The number of entries of a bucket whose slot is \<open>b\<close> and whose overflow nodes are
  \<open>as\<close>, and the bucket's share of the collisions: \<open>max(0, chain length - 1)\<close>.
\<close>

definition chain_length :: "MapNode \<Rightarrow> addr list \<Rightarrow> nat" where
  "chain_length b as = (if empty_slot b then 0 else 1) + length as"

definition bucket_collisions :: "MapNode \<Rightarrow> addr list \<Rightarrow> nat" where
  "bucket_collisions b as = nat (max 0 (int (chain_length b as) - 1))"

text \<open>
  \<open>ass\<close> lists the overflow nodes of every bucket; an empty slot heads no chain.
\<close>

definition chains_of :: "'w Map \<Rightarrow> 'w heap \<Rightarrow> addr list list \<Rightarrow> bool" where
  "chains_of m h ass \<longleftrightarrow>
     unat (buckets_count m) = length (buckets m) \<and>
     list_all2 (\<lambda>b as. chain (nodes h) (next b) as \<and> (empty_slot b \<longrightarrow> as = [])) (buckets m) ass"

text \<open>
  The key and value blocks owned by a bucket. In a well-formed table the overflow nodes of
  all chains are pairwise different, and the blocks owned by the entries are live,
  non-null and pairwise different.
\<close>

definition blocks_of :: "'w heap \<Rightarrow> MapNode \<Rightarrow> addr list \<Rightarrow> addr list" where
  "blocks_of h b as =
     (if empty_slot b then [] else [key b, value b]) @
     concat (map (\<lambda>a. case nodes h a of None \<Rightarrow> [] | Some n \<Rightarrow> [key n, value n]) as)"

definition well_formed :: "'w Map \<Rightarrow> 'w heap \<Rightarrow> addr list list \<Rightarrow> bool" where
  "well_formed m h ass \<longleftrightarrow>
     chains_of m h ass \<and>
     distinct (concat ass) \<and>
     distinct (concat (map2 (blocks_of h) (buckets m) ass)) \<and>
     (\<forall>p \<in> set (concat (map2 (blocks_of h) (buckets m) ass)). p \<noteq> NULL \<and> mem h p \<noteq> None)"

text \<open>
  The heap after \<^verbatim>\<open>map_remove\<close> has removed the entry in slot \<open>b\<close> that has a
  successor: both disposers have run on the entry's own blocks (the key's first), both
  blocks are released, and so is the overflow node that \<open>b\<close> pointed to.
\<close>

definition removed_head_heap :: "'w free_fn \<Rightarrow> 'w free_fn \<Rightarrow> MapNode \<Rightarrow> 'w heap \<Rightarrow> 'w heap" where
  "removed_head_heap kf vf b h =
     h\<lparr>world := vf (value b) (mem h (value b)) (kf (key b) (mem h (key b)) (world h)),
       mem := (mem h)(key b := None, value b := None),
       nodes := (nodes h)(next b := None)\<rparr>"

text \<open>
  The rest of this section describes the tables that are built through the interface when
  every allocation succeeds. \<open>heap_below h\<close>: every live block and every live node lies
  at an address that the allocator has handed out, so that the next allocation is fresh.
\<close>

definition heap_below :: "'w heap \<Rightarrow> bool" where
  "heap_below h \<longleftrightarrow> (\<forall>a. nodes h a \<noteq> None \<longrightarrow> a \<le> brk h) \<and> (\<forall>p. mem h p \<noteq> None \<longrightarrow> p \<le> brk h)"

text \<open>
  \<open>same_shape h h'\<close>: the two heaps have the same overflow nodes, the same allocator
  state and the same live addresses; the bytes and the outside resources may differ.
\<close>

definition same_shape :: "'w heap \<Rightarrow> 'w heap \<Rightarrow> bool" where
  "same_shape h h' \<longleftrightarrow>
     nodes h' = nodes h \<and> brk h' = brk h \<and> outcomes h' = outcomes h \<and> (\<forall>p. mem h' p = None \<longleftrightarrow> mem h p = None)"

definition table_inv :: "'w Map \<Rightarrow> 'w heap \<Rightarrow> bool" where
  "table_inv m h \<longleftrightarrow> (\<exists>ass. well_formed m h ass) \<and> heap_below h \<and> outcomes h = []"

text \<open>
  \<^verbatim>\<open>map_new\<close> in a heap without overflow nodes, then any \<^verbatim>\<open>map_add\<close> and
  \<^verbatim>\<open>map_remove\<close> that return. Between two calls the client may write to the memory,
  allocate blocks, release blocks and change the outside resources, as long as it does
  not release a block that the table owns.
\<close>

inductive built :: "'w Map \<Rightarrow> 'w heap \<Rightarrow> bool" where
  construct: "nodes h = Map.empty \<Longrightarrow> heap_below h \<Longrightarrow> outcomes h = [] \<Longrightarrow>
              map_new ty n h = (Some m, h') \<Longrightarrow> built m h'"
| insert: "built m h \<Longrightarrow> map_add_kv m k v h = Some (Inr (rc, m', h')) \<Longrightarrow> built m' h'"
| remove: "built m h \<Longrightarrow> map_remove m k h = Some (Inr (rc, m', h')) \<Longrightarrow> built m' h'"
| client: "built m h \<Longrightarrow> nodes h' = nodes h \<Longrightarrow> outcomes h' = [] \<Longrightarrow> brk h \<le> brk h' \<Longrightarrow>
           \<forall>p. mem h' p \<noteq> None \<longrightarrow> p \<le> brk h' \<Longrightarrow>
           \<forall>ass. well_formed m h ass \<longrightarrow>
             (\<forall>p \<in> set (concat (map2 (blocks_of h) (buckets m) ass)). mem h' p \<noteq> None) \<Longrightarrow>
           built m h'"

section \<open>Properties\<close>

lemma alloc_ok_empty: "outcomes h = [] \<Longrightarrow> alloc_ok h = (True, h)"
  by (simp add: alloc_ok_def)

lemmas engine_defs = map_new_def alloc_ok_def map_add_kv_def call_hash_def call_cmp_def call_free_def
  load_def store_def map_add_first_def map_add_update_def map_add_append_def malloc_def
  malloc_node_def free_def free_node_def free_ref_def memcpy_def map_get_def map_remove_def
  map_remove_found_def node_ptr_def free_if_set_def

lemmas test_defs = int_hash_def int_cmp_def int_type_def client_heap_def log_type_def
  word_rcat_def

lemmas chained_defs = chained_table_def chained_heap_def log_type_def int_hash_def int_cmp_def
  word_rcat_def

lemma replicate_2: "replicate 2 x = [x, x]"
  by (simp add: numeral_2_eq_2)

text \<open>The table \<open>chained_table\<close> is what the four calls of \<^verbatim>\<open>map_add\<close> build.\<close>

lemma chained_reachable: "reachable chained_table chained_heap"
proof -
  let ?m0 = "\<lparr>type = log_type, length_m = 0, buckets_count = 2,
              buckets = [\<lparr>key = NULL, value = NULL, next = NULL\<rparr>,
                         \<lparr>key = NULL, value = NULL, next = NULL\<rparr>]\<rparr>"
  have s0: "map_new log_type 2 log_client_heap = (Some ?m0, log_client_heap)"
    by (simp add: map_new_def alloc_ok_def log_type_def log_client_heap_def Let_def replicate_2)
  have r0: "reachable ?m0 log_client_heap"
    by (rule reachable.construct [OF _ s0]) (simp add: log_client_heap_def)
  have "\<exists>m1 h1 m2 h2 m3 h3.
      map_add_kv ?m0 1 5 log_client_heap = Some (Inr (0, m1, h1)) \<and>
      map_add_kv m1 2 6 h1 = Some (Inr (0, m2, h2)) \<and>
      map_add_kv m2 4 8 h2 = Some (Inr (0, m3, h3)) \<and>
      map_add_kv m3 3 7 h3 = Some (Inr (0, chained_table, chained_heap))"
    by (simp add: engine_defs log_client_heap_def chained_defs map_add_loop.simps Let_def)
  then show ?thesis
    using r0 reachable.insert by metis
qed

subsection \<open>What the steps do to the node store\<close>

lemma malloc_nodes: "malloc n h = (p, h') \<Longrightarrow> nodes h' = nodes h"
  by (auto simp: malloc_def alloc_ok_def Let_def split: list.splits if_splits prod.splits)

lemma malloc_node_nodes:
  "malloc_node h = (p, h') \<Longrightarrow>
   (p = NULL \<and> nodes h' = nodes h) \<or>
   (p \<noteq> NULL \<and> nodes h' = (nodes h)(p \<mapsto> \<lparr>key = NULL, value = NULL, next = NULL\<rparr>))"
  by (auto simp: malloc_node_def alloc_ok_def Let_def split: list.splits if_splits prod.splits)

lemma free_nodes: "free p h = Inr h' \<Longrightarrow> nodes h' = nodes h"
  by (auto simp: free_def split: if_splits)

lemma free_node_nodes: "free_node p h = Inr h' \<Longrightarrow> nodes h' = (nodes h)(p := None) \<or> nodes h' = nodes h"
  by (auto simp: free_node_def split: if_splits)

lemma memcpy_nodes: "memcpy d s n h = Inr h' \<Longrightarrow> nodes h' = nodes h"
  by (auto simp: memcpy_def split: option.splits if_splits)

lemma call_free_nodes: "call_free f p h = Inr h' \<Longrightarrow> nodes h' = nodes h"
  by (auto simp: call_free_def split: option.splits)

lemma nodes_keyed_del: "nodes_keyed ns \<Longrightarrow> nodes_keyed (ns(a := None))"
  by (simp add: nodes_keyed_def)

lemma nodes_keyed_upd: "nodes_keyed ns \<Longrightarrow> key n \<noteq> NULL \<Longrightarrow> nodes_keyed (ns(a \<mapsto> n))"
  by (simp add: nodes_keyed_def)

lemma nodes_keyed_upd_del: "nodes_keyed ns \<Longrightarrow> nodes_keyed ((ns(a \<mapsto> n))(a := None))"
  by (simp add: nodes_keyed_def)

lemma heads_ok_upd: "heads_ok bs \<Longrightarrow> (empty_slot b \<longrightarrow> next b = NULL) \<Longrightarrow> heads_ok (bs[i := b])"
  by (auto simp: heads_ok_def dest: set_update_subset_insert [THEN subsetD])

lemma load_bucket: "load m h (Bucket i) = Some n \<longleftrightarrow> i < length (buckets m) \<and> n = buckets m ! i"
  by (auto simp: load_def)

lemma load_node: "load m h (Node a) = nodes h a"
  by (simp add: load_def)

lemma store_inv:
  assumes "store r n (m, h) = (m', h')" and "heads_ok (buckets m)" and "nodes_keyed (nodes h)"
    and "key n \<noteq> NULL \<or> value n \<noteq> NULL" and "key n \<noteq> NULL \<or> (\<exists>i. r = Bucket i)"
  shows "heads_ok (buckets m') \<and> nodes_keyed (nodes h')"
  using assms
  by (cases r) (auto simp: store_def empty_slot_def intro!: heads_ok_upd nodes_keyed_upd)

lemma map_add_update_rc:
  "map_add_update m v n h = Inr (rc, m', h') \<Longrightarrow>
     rc = 1 \<and> m' = m \<and> nodes h' = nodes h"
  by (auto simp: map_add_update_def split: sum.splits) (metis call_free_nodes memcpy_nodes)

lemma map_add_first_rc: "map_add_first m i node k v h = Inr (rc, m', h') \<Longrightarrow> rc \<noteq> 1"
  by (auto simp: map_add_first_def Let_def split: prod.splits if_splits sum.splits)

lemma map_add_append_rc: "map_add_append m k v node h = Inr (rc, m', h') \<Longrightarrow> rc \<noteq> 1"
  by (auto simp: map_add_append_def Let_def split: prod.splits if_splits sum.splits option.splits)

lemma map_add_update_effect:
  "map_add_update m v n h = Inr (rc, m', h') \<Longrightarrow>
   \<exists>f d s. value_free (type m) = Some f \<and> mem h (value n) = Some d \<and> mem h v = Some s \<and>
     h' = h\<lparr>world := f (value n) (Some d) (world h),
            mem := (mem h)(value n \<mapsto> take (unat (value_size (type m))) s @ drop (unat (value_size (type m))) d)\<rparr> \<and>
     m' = m \<and> rc = 1"
  by (simp add: map_add_update_def call_free_def memcpy_def split: sum.splits option.splits if_splits)
    auto

subsection \<open>Re-insertion by \<^verbatim>\<open>map_optimize\<close>\<close>

text \<open>
  C1. After \<^verbatim>\<open>map_optimize\<close> every key that was retrievable is retrievable in the
  replacement table with the same value, the table having been rebuilt by re-inserting
  the live entries. The code does not do this: the re-insertion loop starts at the slot
  itself and passes the null key and value of an empty slot to \<^verbatim>\<open>map_add\<close>. A table of
  two buckets that holds the single key 7 (retrievable, with value 10) has an empty slot,
  and \<^verbatim>\<open>map_optimize\<close> ends in a read through a null pointer.
\<close>

theorem optimize_faults_on_empty_bucket:
  "(case map_new int_type 2 (client_heap []) of
      (Some m0, h1) \<Rightarrow>
        (case map_add_kv m0 1 2 h1 of
           Some (Inr (r1, m1, h2)) \<Rightarrow>
             r1 = 0 \<and> length_m m1 = 1 \<and>
             (case map_get m1 1 h2 of Some (Inr p) \<Rightarrow> mem h2 p = Some [10, 0, 0, 0] | _ \<Rightarrow> False) \<and>
             (case map_optimize m1 h2 of Some (Inl e) \<Rightarrow> e = BadRead | _ \<Rightarrow> False)
         | _ \<Rightarrow> False)
    | _ \<Rightarrow> False)"
  by code_simp

subsection \<open>Inserting a key that is already present\<close>

text \<open>
  C2. A second \<^verbatim>\<open>map_add\<close> of the same key returns 1, keeps the length and makes
  \<^verbatim>\<open>map_get\<close> return the second value. The loop of \<^verbatim>\<open>map_add\<close> compares only the
  nodes that have a successor, so the last node of a chain is never compared: with the
  key alone in its bucket the second call returns 0, the length becomes 2 and
  \<^verbatim>\<open>map_get\<close> still returns the first value.
\<close>

theorem second_insert_of_only_key_appends:
  "(case map_new int_type 1 (client_heap []) of
      (Some m0, h1) \<Rightarrow>
        (case map_add_kv m0 1 2 h1 of
           Some (Inr (r1, m1, h2)) \<Rightarrow>
             (case map_add_kv m1 1 3 h2 of
                Some (Inr (r2, m2, h3)) \<Rightarrow>
                  r1 = 0 \<and> length_m m1 = 1 \<and> r2 = 0 \<and> length_m m2 = 2 \<and>
                  (case map_get m2 1 h3 of Some (Inr p) \<Rightarrow> mem h3 p = Some [10, 0, 0, 0] | _ \<Rightarrow> False)
              | _ \<Rightarrow> False)
         | _ \<Rightarrow> False)
    | _ \<Rightarrow> False)"
  by code_simp

text \<open>
  C3. The length equals the number of distinct keys stored. After the same two calls the
  length is 2 while the chain holds the key 7 twice; one \<^verbatim>\<open>map_remove\<close> of the key
  brings the length to 1 and the key is still found, now with the second value.
\<close>

theorem length_counts_duplicate_key_twice:
  "(case map_new int_type 1 (client_heap []) of
      (Some m0, h1) \<Rightarrow>
        (case map_add_kv m0 1 2 h1 of
           Some (Inr (r1, m1, h2)) \<Rightarrow>
             (case map_add_kv m1 1 3 h2 of
                Some (Inr (r2, m2, h3)) \<Rightarrow>
                  length_m m2 = 2 \<and>
                  (case buckets m2 of
                     [b] \<Rightarrow> mem h3 (key b) = Some [7, 0, 0, 0] \<and>
                       (case nodes h3 (next b) of
                          Some n \<Rightarrow> mem h3 (key n) = Some [7, 0, 0, 0] \<and> next n = NULL
                        | None \<Rightarrow> False)
                   | _ \<Rightarrow> False) \<and>
                  (case map_remove m2 1 h3 of
                     Some (Inr (r3, m3, h4)) \<Rightarrow>
                       r3 = 0 \<and> length_m m3 = 1 \<and>
                       (case map_get m3 1 h4 of Some (Inr p) \<Rightarrow> mem h4 p = Some [20, 0, 0, 0] | _ \<Rightarrow> False)
                   | _ \<Rightarrow> False)
              | _ \<Rightarrow> False)
         | _ \<Rightarrow> False)
    | _ \<Rightarrow> False)"
  by code_simp

subsection \<open>Allocation failure in \<^verbatim>\<open>map_add\<close>\<close>

text \<open>
  C6. A failed allocation leaves the table as it was; a slot that was empty is empty
  again. When the key block of an empty slot is allocated and the value block is not,
  the code frees the key block but leaves its address in the slot: \<^verbatim>\<open>map_add\<close> returns
  -1 with the slot holding a dangling key pointer and a null value pointer, and the next
  \<^verbatim>\<open>map_get\<close> of that bucket reads the freed block.
\<close>

theorem failed_value_allocation_leaves_dangling_key:
  "(case map_new int_type 1 (client_heap [True, True, True, False]) of
      (Some m0, h1) \<Rightarrow>
        buckets m0 = [\<lparr>key = NULL, value = NULL, next = NULL\<rparr>] \<and>
        (case map_add_kv m0 1 2 h1 of
           Some (Inr (r1, m1, h2)) \<Rightarrow>
             r1 = - 1 \<and> length_m m1 = 0 \<and>
             buckets m1 = [\<lparr>key = 4, value = NULL, next = NULL\<rparr>] \<and>
             mem h2 4 = None \<and>
             (case map_get m1 1 h2 of Some (Inl e) \<Rightarrow> e = BadRead | _ \<Rightarrow> False)
         | _ \<Rightarrow> False)
    | _ \<Rightarrow> False)"
  by code_simp

subsection \<open>The default strategy\<close>

text \<open>
  C8. The default hash is the first machine word of the key block, and the default compare
  is a three-way comparison of that same word: 0 for two blocks with equal first words,
  negative or positive in the order of the words otherwise. The hash is that word, but
  \<^verbatim>\<open>map_default_cmp\<close> compares the two pointers and never looks at the blocks: for two
  blocks at the addresses 1 and 2 it returns -1 when both hold 5, and also when the first
  holds 9 and the second 5. As \<^verbatim>\<open>map_add\<close> stores a copy of the key, no key pointer
  of a caller ever compares equal to a stored key. In the table \<^verbatim>\<open>MAP(size_t, int)\<close>,
  after \<^verbatim>\<open>map_add\<close> of the key 5 has returned 0 and bucket 5 holds a copy of the key
  and of the value, \<^verbatim>\<open>map_get\<close> returns \<^verbatim>\<open>NULL\<close> for the pointer that was inserted and
  for the pointer to the other variable that holds 5, and \<^verbatim>\<open>map_remove\<close> returns -1
  and leaves the length at 1. After \<^verbatim>\<open>map_add\<close> of the key 21, which goes to the same
  bucket, so that the entry of the key 5 has a successor and is compared, another
  \<^verbatim>\<open>map_add\<close> of the key 5 returns 0 instead of 1 and the length is 3.
\<close>

theorem default_cmp_ignores_key_words:
  "map_default_hash 1 (Some [5, 0, 0, 0, 0, 0, 0, 0]) = Some 5 \<and>
   map_default_hash 2 (Some [5, 0, 0, 0, 0, 0, 0, 0]) = Some 5 \<and>
   map_default_cmp 1 (Some [5, 0, 0, 0, 0, 0, 0, 0]) 2 (Some [5, 0, 0, 0, 0, 0, 0, 0]) = Some (- 1) \<and>
   map_default_cmp 1 (Some [9, 0, 0, 0, 0, 0, 0, 0]) 2 (Some [5, 0, 0, 0, 0, 0, 0, 0]) = Some (- 1) \<and>
   (case map_new (MAP_TYPE_DEFAULT 8 4) MAP_DEFAULT_BUCKETS_COUNT word_client_heap of
      (Some m0, h1) \<Rightarrow>
        (case map_add_kv m0 1 4 h1 of
           Some (Inr (r1, m1, h2)) \<Rightarrow>
             r1 = 0 \<and> length_m m1 = 1 \<and>
             mem h2 (key (buckets m1 ! 5)) = Some [5, 0, 0, 0, 0, 0, 0, 0] \<and>
             mem h2 (value (buckets m1 ! 5)) = Some [10, 0, 0, 0] \<and>
             (case map_get m1 1 h2 of Some (Inr p) \<Rightarrow> p = NULL | _ \<Rightarrow> False) \<and>
             (case map_get m1 2 h2 of Some (Inr p) \<Rightarrow> p = NULL | _ \<Rightarrow> False) \<and>
             (case map_remove m1 1 h2 of
                Some (Inr (r2, m2, h3)) \<Rightarrow> r2 = - 1 \<and> length_m m2 = 1
              | _ \<Rightarrow> False) \<and>
             (case map_add_kv m1 3 4 h2 of
                Some (Inr (r3, m3, h4)) \<Rightarrow>
                  r3 = 0 \<and> length_m m3 = 2 \<and> next (buckets m3 ! 5) \<noteq> NULL \<and>
                  (case map_add_kv m3 1 4 h4 of
                     Some (Inr (r4, m4, h5)) \<Rightarrow> r4 = 0 \<and> length_m m4 = 3
                   | _ \<Rightarrow> False)
              | _ \<Rightarrow> False)
         | _ \<Rightarrow> False)
    | _ \<Rightarrow> False)"
  by code_simp

subsection \<open>Tables without buckets\<close>

text \<open>
  C10. \<^verbatim>\<open>map_optimize\<close> of a table of length 0 computes the target 0, \<^verbatim>\<open>map_new\<close>
  accepts it, and the replacement table has no buckets, so that the operations on it
  divide by zero. The target is 0 and \<^verbatim>\<open>map_new\<close> accepts it, but no replacement table
  comes back: the table that \<^verbatim>\<open>map_new\<close> returns for one bucket has length 0 and an
  empty slot, \<^verbatim>\<open>map_optimize\<close> passes the null key and value of that slot to
  \<^verbatim>\<open>map_add\<close> on the new table, and the call ends in a read through the null key
  (the fault of C1) before the division is reached and before \<^verbatim>\<open>*inp\<close> is set.
\<close>

theorem optimize_of_length_zero_table_faults:
  "(case map_new int_type 1 (client_heap []) of
      (Some m0, h1) \<Rightarrow>
        length_m m0 = 0 \<and> buckets m0 = [\<lparr>key = NULL, value = NULL, next = NULL\<rparr>] \<and>
        optimize_target (length_m m0) = Inr 0 \<and>
        (case map_new (type m0) 0 h1 of
           (Some m', h') \<Rightarrow> buckets_count m' = 0 \<and> buckets m' = []
         | _ \<Rightarrow> False) \<and>
        (case map_optimize m0 h1 of Some (Inl e) \<Rightarrow> e = BadRead | _ \<Rightarrow> False)
    | _ \<Rightarrow> False)"
  by code_simp

text \<open>
  The same happens for every table of length 0 that has a slot: the new table has no
  buckets, and the first \<^verbatim>\<open>map_add\<close> on it faults in its hash call or divides by zero.
\<close>

lemma zero_bucket_add_faults:
  "buckets_count nm = 0 \<Longrightarrow> \<exists>e. map_add_kv nm k v h = Some (Inl e)"
  by (simp add: map_add_kv_def split: sum.splits)

lemma optimize_of_length_zero_table_with_slots:
  assumes len: "length_m m = 0" and bc: "0 < unat (buckets_count m)" and bs: "buckets m \<noteq> []"
    and os: "outcomes h = []"
  shows "\<exists>e. map_optimize m h = Some (Inl e)"
proof -
  have t: "optimize_target 0 = Inr 0"
    by (simp add: optimize_target_def double_quotient_def)
  from os obtain nm where new: "map_new (type m) 0 h = (Some nm, h)" and z: "buckets_count nm = 0"
    by (simp add: map_new_def alloc_ok_empty Let_def)
  let ?b = "buckets m ! 0"
  from zero_bucket_add_faults [OF z] obtain e where
    e: "map_add_kv nm (key ?b) (value ?b) h = Some (Inl e)"
    by blast
  have ld: "load m h (Bucket 0) = Some ?b"
    using bs by (simp add: load_def)
  have "map_optimize_chain m (Some (Bucket 0)) (Some nm) h = Some (Inl e)"
    by (subst map_optimize_chain.simps) (simp add: ld e)
  then have "map_optimize_buckets m 0 (Some nm) h = Some (Inl e)"
    using bc by (subst map_optimize_buckets.simps) simp
  then have "map_optimize m h = Some (Inl e)"
    by (simp add: map_optimize_def len t new)
  then show ?thesis ..
qed

text \<open>
  The division by zero itself can be reached through \<^verbatim>\<open>map_new\<close> with a bucket count of
  0: it returns a table with no slots, on which every \<^verbatim>\<open>map_add\<close>, \<^verbatim>\<open>map_get\<close> and
  \<^verbatim>\<open>map_remove\<close> whose hash call returns takes the division-by-zero branch; and
  \<^verbatim>\<open>map_optimize\<close> of a table of length 0 that itself has no slots returns such a table.
\<close>

lemma zero_bucket_table:
  "optimize_target 0 = Inr 0 \<and>
   (outcomes h = [] \<longrightarrow>
      (\<exists>m'. map_new ty 0 h = (Some m', h) \<and> buckets_count m' = 0 \<and> buckets m' = [] \<and> length_m m' = 0)) \<and>
   (buckets_count m = 0 \<and> call_hash m k h = Inr x \<longrightarrow>
      map_add_kv m k v h = Some (Inl DivByZero) \<and>
      map_get m k h = Some (Inl DivByZero) \<and>
      map_remove m k h = Some (Inl DivByZero)) \<and>
   (length_m m = 0 \<and> buckets_count m = 0 \<and> outcomes h = [] \<longrightarrow>
      (\<exists>m'. map_optimize m h = Some (Inr (Some m', h)) \<and> buckets_count m' = 0 \<and> buckets m' = []))"
proof (intro conjI impI)
  show "optimize_target 0 = Inr 0"
    by (simp add: optimize_target_def double_quotient_def)
next
  assume "outcomes h = []"
  then show "\<exists>m'. map_new ty 0 h = (Some m', h) \<and> buckets_count m' = 0 \<and> buckets m' = [] \<and> length_m m' = 0"
    by (simp add: map_new_def alloc_ok_empty Let_def)
next
  assume a: "buckets_count m = 0 \<and> call_hash m k h = Inr x"
  then show "map_add_kv m k v h = Some (Inl DivByZero)"
    by (simp add: map_add_kv_def)
  from a show "map_get m k h = Some (Inl DivByZero)"
    by (simp add: map_get_def)
  from a show "map_remove m k h = Some (Inl DivByZero)"
    by (simp add: map_remove_def)
next
  assume a: "length_m m = 0 \<and> buckets_count m = 0 \<and> outcomes h = []"
  then have new: "\<exists>m'. map_new (type m) 0 h = (Some m', h) \<and> buckets_count m' = 0 \<and> buckets m' = []"
    by (simp add: map_new_def alloc_ok_empty Let_def)
  have t: "optimize_target 0 = Inr 0"
    by (simp add: optimize_target_def double_quotient_def)
  from a show "\<exists>m'. map_optimize m h = Some (Inr (Some m', h)) \<and> buckets_count m' = 0 \<and> buckets m' = []"
    using new
    by (auto simp: map_optimize_def t map_optimize_buckets.simps map_free_def
          map_free_buckets.simps)
qed

lemma zero_bucket_table_example:
  "map_add_kv \<lparr>type = int_type, length_m = 0, buckets_count = 0, buckets = []\<rparr> 1 2 (client_heap [])
     = Some (Inl DivByZero) \<and>
   map_get \<lparr>type = int_type, length_m = 0, buckets_count = 0, buckets = []\<rparr> 1 (client_heap [])
     = Some (Inl DivByZero) \<and>
   map_remove \<lparr>type = int_type, length_m = 0, buckets_count = 0, buckets = []\<rparr> 1 (client_heap [])
     = Some (Inl DivByZero) \<and>
   (\<exists>m'. map_new int_type 0 (client_heap []) = (Some m', client_heap []) \<and> buckets_count m' = 0) \<and>
   (\<exists>m'. map_optimize \<lparr>type = int_type, length_m = 0, buckets_count = 0, buckets = []\<rparr> (client_heap [])
           = Some (Inr (Some m', client_heap [])) \<and> buckets_count m' = 0)"
proof -
  let ?m = "\<lparr>type = int_type, length_m = 0, buckets_count = 0, buckets = []\<rparr> :: unit Map"
  have o: "outcomes (client_heap []) = []"
    by (simp add: client_heap_def)
  have hs: "call_hash ?m 1 (client_heap []) = Inr 7"
    by (simp add: call_hash_def int_type_def int_hash_def client_heap_def word_rcat_def)
  show ?thesis
    using zero_bucket_table [of "client_heap []" int_type ?m 1 7 2] o hs
    by auto
qed

text \<open>
  The conversion at some lengths: for 1, 3 and 12 the target is the integer part of 4/3
  of the length; for \<open>2 ^ 52 + 1\<close> the quotient is rounded up to the next
  \<^verbatim>\<open>double\<close>, one above that integer part; for the largest length the quotient is out
  of the range of \<^verbatim>\<open>size_t\<close>.
\<close>

lemma optimize_target_examples:
  "optimize_target 1 = Inr 1"
  "optimize_target 3 = Inr 4"
  "optimize_target 12 = Inr 16"
  "optimize_target (2 ^ 52 + 1) = Inr 6004799503160663"
  "optimize_target (2 ^ 64 - 1) = Inl BadConversion"
  by code_simp+

subsection \<open>Disposal on update\<close>

lemma map_add_loop_update_aux:
  assumes "map_add_loop m k v node h = Some y"
  shows "\<forall>m' h'. y = Inr (1, m', h') \<longrightarrow>
     (\<exists>r n. load m h r = Some n \<and> call_cmp m (key n) k h = Inr 0 \<and> map_add_update m v n h = Inr (1, m', h'))"
proof (induct m k v node h y rule: map_add_loop.raw_induct)
  case (1 loop m k v node h y)
  show ?case
  proof (intro allI impI)
    fix m' h'
    assume y: "y = Inr (1, m', h')"
    from 1(2) obtain n where ld: "load m h node = Some n"
      using y by (auto split: option.splits)
    show "\<exists>r n. load m h r = Some n \<and> call_cmp m (key n) k h = Inr 0 \<and> map_add_update m v n h = Inr (1, m', h')"
    proof (cases "next n \<noteq> NULL")
      case False
      with 1(2) ld y have "map_add_append m k v node h = Inr (1, m', h')" by simp
      from map_add_append_rc [OF this] show ?thesis by simp
    next
      case True
      with 1(2) ld y obtain c where c: "call_cmp m (key n) k h = Inr c"
        by (auto split: sum.splits)
      show ?thesis
      proof (cases "c = 0")
        case True
        with 1(2) ld y c \<open>next n \<noteq> NULL\<close> have "map_add_update m v n h = Inr (1, m', h')" by simp
        with ld c True show ?thesis by blast
      next
        case False
        with 1(2) ld y c \<open>next n \<noteq> NULL\<close> have l: "loop m k v (Node (next n)) h = Some y" by simp
        from 1(1) [OF l] y show ?thesis by simp
      qed
    qed
  qed
qed (rule assms)

lemma untouched_refl: "untouched h h"
  by (simp add: untouched_def)

lemma untouched_trans: "untouched h h1 \<Longrightarrow> untouched h1 h2 \<Longrightarrow> untouched h h2"
  by (auto simp: untouched_def)

lemma malloc_untouched: "malloc n h = (p, h') \<Longrightarrow> untouched h h' \<and> (p \<noteq> NULL \<longrightarrow> brk h < p \<and> p \<le> brk h')"
  by (auto simp: malloc_def alloc_ok_def untouched_def Let_def split: list.splits if_splits prod.splits)

lemma malloc_node_untouched: "malloc_node h = (p, h') \<Longrightarrow> untouched h h'"
  by (auto simp: malloc_node_def alloc_ok_def untouched_def Let_def split: list.splits if_splits prod.splits)

lemma free_untouched: "free p h = Inr h' \<Longrightarrow> brk h0 < p \<Longrightarrow> untouched h0 h \<Longrightarrow> untouched h0 h'"
  by (auto simp: free_def untouched_def split: if_splits)

lemma free_node_untouched: "free_node p h = Inr h' \<Longrightarrow> untouched h0 h \<Longrightarrow> untouched h0 h'"
  by (auto simp: free_node_def untouched_def split: if_splits)

lemma memcpy_untouched: "memcpy d s n h = Inr h' \<Longrightarrow> brk h0 < d \<Longrightarrow> untouched h0 h \<Longrightarrow> untouched h0 h'"
  by (auto simp: memcpy_def untouched_def split: option.splits if_splits)

lemma store_untouched: "store r n (m, h) = (m', h') \<Longrightarrow> untouched h0 h \<Longrightarrow> untouched h0 h'"
  by (cases r) (auto simp: store_def untouched_def)

lemma map_add_first_untouched:
  assumes "map_add_first m i node k v h = Inr (rc, m', h')"
  shows "untouched h h'"
proof -
  obtain kp h1 where a1: "malloc (unat (key_size (type m))) h = (kp, h1)"
    by (cases "malloc (unat (key_size (type m))) h")
  note u1 = malloc_untouched [OF a1]
  show ?thesis
  proof (cases "kp = NULL")
    case True
    with assms a1 u1 show ?thesis by (simp add: map_add_first_def)
  next
    case kp: False
    obtain vp h2 where a2: "malloc (unat (value_size (type m))) h1 = (vp, h2)"
      by (cases "malloc (unat (value_size (type m))) h1")
    note u2 = malloc_untouched [OF a2]
    have u02: "untouched h h2" using u1 u2 untouched_trans by blast
    have bk: "brk h < kp" using u1 kp by simp
    show ?thesis
    proof (cases "vp = NULL")
      case True
      with assms a1 a2 kp obtain h3 where "free kp h2 = Inr h3" "h' = h3"
        by (auto simp: map_add_first_def split: sum.splits)
      with free_untouched [OF _ bk u02] show ?thesis by simp
    next
      case vp: False
      have bv: "brk h < vp" using u1 u2 vp by (auto simp: untouched_def)
      from assms a1 a2 kp vp obtain h3 where
        c1: "memcpy kp k (unat (key_size (type m))) h2 = Inr h3" and
        c2: "memcpy vp v (unat (value_size (type m))) h3 = Inr h'"
        by (auto simp: map_add_first_def Let_def split: sum.splits)
      from memcpy_untouched [OF c2 bv memcpy_untouched [OF c1 bk u02]] show ?thesis .
    qed
  qed
qed

lemma map_add_append_untouched:
  assumes "map_add_append m k v node h = Inr (rc, m', h')"
  shows "untouched h h'"
proof -
  obtain nn h1 where a1: "malloc_node h = (nn, h1)" by (cases "malloc_node h")
  note u1 = malloc_node_untouched [OF a1]
  show ?thesis
  proof (cases "nn = NULL")
    case True
    with assms a1 u1 show ?thesis by (simp add: map_add_append_def)
  next
    case nn: False
    obtain kp h2 where a2: "malloc (unat (key_size (type m))) h1 = (kp, h2)"
      by (cases "malloc (unat (key_size (type m))) h1")
    note u2 = malloc_untouched [OF a2]
    have u02: "untouched h h2" using u1 u2 untouched_trans by blast
    show ?thesis
    proof (cases "kp = NULL")
      case True
      with assms a1 a2 nn obtain h3 where "free_node nn h2 = Inr h3" "h' = h3"
        by (auto simp: map_add_append_def split: sum.splits)
      with free_node_untouched [OF _ u02] show ?thesis by simp
    next
      case kp: False
      have bk: "brk h < kp" using u1 u2 kp by (auto simp: untouched_def)
      obtain vp h3 where a3: "malloc (unat (value_size (type m))) h2 = (vp, h3)"
        by (cases "malloc (unat (value_size (type m))) h2")
      note u3 = malloc_untouched [OF a3]
      have u03: "untouched h h3" using u02 u3 untouched_trans by blast
      show ?thesis
      proof (cases "vp = NULL")
        case True
        with assms a1 a2 a3 nn kp obtain h4 h5 where
          "free kp h3 = Inr h4" "free_node nn h4 = Inr h5" "h' = h5"
          by (auto simp: map_add_append_def split: sum.splits)
        with free_node_untouched [OF _ free_untouched [OF _ bk u03]] show ?thesis by simp
      next
        case vp: False
        have bv: "brk h < vp" using u02 u3 vp by (auto simp: untouched_def)
        from assms a1 a2 a3 nn kp vp obtain h4 h5 n m1 where
          c1: "memcpy kp k (unat (key_size (type m))) h3 = Inr h4" and
          c2: "memcpy vp v (unat (value_size (type m))) h4 = Inr h5" and
          st: "store node (n\<lparr>next := nn\<rparr>)
                 (m, h5\<lparr>nodes := (nodes h5)(nn \<mapsto> \<lparr>key = kp, value = vp, next = NULL\<rparr>)\<rparr>) = (m1, h')"
          by (auto simp: map_add_append_def Let_def split: sum.splits option.splits prod.splits)
        have "untouched h h5"
          using memcpy_untouched [OF c2 bv memcpy_untouched [OF c1 bk u03]] .
        then have "untouched h (h5\<lparr>nodes := (nodes h5)(nn \<mapsto> \<lparr>key = kp, value = vp, next = NULL\<rparr>)\<rparr>)"
          by (simp add: untouched_def)
        from store_untouched [OF st this] show ?thesis .
      qed
    qed
  qed
qed


lemma map_add_loop_untouched_aux:
  assumes "map_add_loop m k v node h = Some y"
  shows "\<forall>rc m' h'. y = Inr (rc, m', h') \<longrightarrow> rc \<noteq> 1 \<longrightarrow> untouched h h'"
proof (induct m k v node h y rule: map_add_loop.raw_induct)
  case (1 loop m k v node h y)
  show ?case
  proof (intro allI impI)
    fix rc m' h'
    assume y: "y = Inr (rc, m', h')" and rc: "rc \<noteq> 1"
    from 1(2) obtain n where ld: "load m h node = Some n"
      using y by (auto split: option.splits)
    show "untouched h h'"
    proof (cases "next n \<noteq> NULL")
      case False
      with 1(2) ld y have "map_add_append m k v node h = Inr (rc, m', h')" by simp
      from map_add_append_untouched [OF this] show ?thesis .
    next
      case True
      with 1(2) ld y obtain c where c: "call_cmp m (key n) k h = Inr c"
        by (auto split: sum.splits)
      show ?thesis
      proof (cases "c = 0")
        case True
        with 1(2) ld y c \<open>next n \<noteq> NULL\<close> have "map_add_update m v n h = Inr (rc, m', h')" by simp
        with rc show ?thesis
          by (auto simp: map_add_update_def split: sum.splits)
      next
        case False
        with 1(2) ld y c \<open>next n \<noteq> NULL\<close> have l: "loop m k v (Node (next n)) h = Some y" by simp
        from 1(1) [OF l] y rc show ?thesis by simp
      qed
    qed
  qed
qed (rule assms)

lemma map_add_kv_untouched:
  assumes "map_add_kv m k v h = Some (Inr (rc, m', h'))" and "rc \<noteq> 1"
  shows "untouched h h'"
proof -
  from assms obtain x where x: "call_hash m k h = Inr x" and bc: "buckets_count m \<noteq> 0"
    by (auto simp: map_add_kv_def split: sum.splits if_splits)
  let ?i = "unat (x mod buckets_count m)"
  from assms x bc obtain node where ld: "load m h (Bucket ?i) = Some node"
    by (auto simp: map_add_kv_def Let_def split: option.splits)
  show ?thesis
  proof (cases "key node = NULL \<and> value node = NULL")
    case True
    with assms(1) x bc ld have "map_add_first m ?i node k v h = Inr (rc, m', h')"
      by (simp add: map_add_kv_def Let_def)
    from map_add_first_untouched [OF this] show ?thesis .
  next
    case False
    with assms(1) x bc ld have "map_add_loop m k v (Bucket ?i) h = Some (Inr (rc, m', h'))"
      by (auto simp: map_add_kv_def Let_def)
    from map_add_loop_untouched_aux [OF this] assms(2) show ?thesis by blast
  qed
qed

text \<open>
  C5. \<^verbatim>\<open>map_add\<close> returns 1 exactly on its update path. Whenever it does, some node
  \<open>n\<close> of the table compared equal to the key, \<^verbatim>\<open>value_free\<close> was called on
  \<open>n\<close>'s value pointer with the block still holding the old bytes \<open>d\<close>, and the
  final heap is the heap of that call with the first \<^verbatim>\<open>value_size\<close> bytes of the block
  overwritten by the new value; nothing else changed. On every other return no disposer
  has run and no block that existed before the call has been written, so no stored value
  is overwritten without the disposal.
\<close>

theorem update_disposes_old_value_first:
  assumes "map_add_kv m k v h = Some (Inr (rc, m', h'))"
  shows "(rc = 1 \<longrightarrow>
           (\<exists>r n f d s. load m h r = Some n \<and> call_cmp m (key n) k h = Inr 0 \<and>
              value_free (type m) = Some f \<and> mem h (value n) = Some d \<and> mem h v = Some s \<and>
              m' = m \<and>
              h' = h\<lparr>world := f (value n) (Some d) (world h),
                     mem := (mem h)(value n \<mapsto> take (unat (value_size (type m))) s @
                                                   drop (unat (value_size (type m))) d)\<rparr>)) \<and>
         (rc \<noteq> 1 \<longrightarrow> world h' = world h \<and> (\<forall>p. p \<le> brk h \<longrightarrow> mem h' p = mem h p))"
proof -
  have upd: "\<exists>r n f d s. load m h r = Some n \<and> call_cmp m (key n) k h = Inr 0 \<and>
              value_free (type m) = Some f \<and> mem h (value n) = Some d \<and> mem h v = Some s \<and>
              m' = m \<and>
              h' = h\<lparr>world := f (value n) (Some d) (world h),
                     mem := (mem h)(value n \<mapsto> take (unat (value_size (type m))) s @
                                                   drop (unat (value_size (type m))) d)\<rparr>"
    if rc: "rc = 1"
  proof -
    from assms obtain x where x: "call_hash m k h = Inr x" and bc: "buckets_count m \<noteq> 0"
      by (auto simp: map_add_kv_def split: sum.splits if_splits)
    let ?i = "unat (x mod buckets_count m)"
    from assms x bc obtain node where ld: "load m h (Bucket ?i) = Some node"
      by (auto simp: map_add_kv_def Let_def split: option.splits)
    have "map_add_loop m k v (Bucket ?i) h = Some (Inr (1, m', h'))"
      using assms rc x bc ld map_add_first_rc [of m ?i node k v h 1 m' h']
      by (auto simp: map_add_kv_def Let_def split: if_splits)
    from map_add_loop_update_aux [OF this]
    obtain r n where n: "load m h r = Some n" "call_cmp m (key n) k h = Inr 0"
      and u: "map_add_update m v n h = Inr (1, m', h')"
      by blast
    from map_add_update_effect [OF u] n show ?thesis
      by blast
  qed
  have other: "world h' = world h \<and> (\<forall>p. p \<le> brk h \<longrightarrow> mem h' p = mem h p)" if "rc \<noteq> 1"
    using map_add_kv_untouched [OF assms that] by (simp add: untouched_def)
  from upd other show ?thesis
    by blast
qed

theorem update_disposes_old_value_first_witness:
  "reachable chained_table chained_heap \<and>
   (\<exists>h' p d. map_add_kv chained_table 1 6 chained_heap = Some (Inr (1, chained_table, h')) \<and>
      world h' = [(p, Some d)] \<and> mem chained_heap p = Some d) \<and>
   (\<exists>m' h'. map_add_kv chained_table 4 6 chained_heap = Some (Inr (0, m', h')) \<and>
      world h' = [] \<and> mem h' 16 = Some [120, 0, 0, 0])"
proof -
  have "\<exists>h'. map_add_kv chained_table 1 6 chained_heap = Some (Inr (1, chained_table, h'))"
    by (simp add: engine_defs chained_defs map_add_loop.simps Let_def)
  then obtain h' where r: "map_add_kv chained_table 1 6 chained_heap = Some (Inr (1, chained_table, h'))"
    by blast
  have f: "value_free (type chained_table) = Some (\<lambda>p blk w. w @ [(p, blk)])"
    and w: "world chained_heap = []" and b: "brk chained_heap = 18"
    and v: "mem chained_heap 16 = Some [120, 0, 0, 0]"
    by (simp_all add: chained_defs)
  from update_disposes_old_value_first [OF r] f w
  have 1: "\<exists>p d. world h' = [(p, Some d)] \<and> mem chained_heap p = Some d"
    by auto
  have "\<exists>m'' h''. map_add_kv chained_table 4 6 chained_heap = Some (Inr (0, m'', h''))"
    by (simp add: engine_defs chained_defs map_add_loop.simps Let_def)
  then obtain m'' h'' where r2: "map_add_kv chained_table 4 6 chained_heap = Some (Inr (0, m'', h''))"
    by blast
  from update_disposes_old_value_first [OF r2] w b v
  have 2: "world h'' = [] \<and> mem h'' 16 = Some [120, 0, 0, 0]"
    by simp
  from r 1 r2 2 chained_reachable show ?thesis by blast
qed

subsection \<open>Empty slots head no chain\<close>

lemma map_add_first_inv:
  assumes "map_add_first m index node k v h = Inr (rc, m', h')"
    and "heads_ok (buckets m)" and "nodes_keyed (nodes h)"
    and "next node = NULL"
  shows "heads_ok (buckets m') \<and> nodes_keyed (nodes h') \<and> rc \<noteq> 1"
  using assms
  by (auto simp: map_add_first_def Let_def empty_slot_def split: prod.splits if_splits sum.splits
      dest!: malloc_nodes free_nodes memcpy_nodes intro!: heads_ok_upd)


lemma map_add_append_inv:
  assumes "map_add_append m k v node h = Inr (rc, m', h')"
    and "heads_ok (buckets m)" and "nodes_keyed (nodes h)" and "ref_ok m node"
  shows "heads_ok (buckets m') \<and> nodes_keyed (nodes h') \<and> rc \<noteq> 1"
proof -
  obtain nn h1 where a1: "malloc_node h = (nn, h1)" by (cases "malloc_node h")
  show ?thesis
  proof (cases "nn = NULL")
    case True
    with assms a1 show ?thesis
      using malloc_node_nodes [OF a1] by (auto simp: map_add_append_def)
  next
    case nn: False
    then have n1: "nodes h1 = (nodes h)(nn \<mapsto> \<lparr>key = NULL, value = NULL, next = NULL\<rparr>)"
      using malloc_node_nodes [OF a1] by auto
    obtain kp h2 where a2: "malloc (unat (key_size (type m))) h1 = (kp, h2)"
      by (cases "malloc (unat (key_size (type m))) h1")
    have n2: "nodes h2 = nodes h1" using malloc_nodes [OF a2] .
    show ?thesis
    proof (cases "kp = NULL")
      case True
      with assms a1 a2 nn n1 n2 show ?thesis
        by (auto simp: map_add_append_def free_node_def nodes_keyed_upd_del nodes_keyed_del split: sum.splits if_splits)
    next
      case kp: False
      obtain vp h3 where a3: "malloc (unat (value_size (type m))) h2 = (vp, h3)"
        by (cases "malloc (unat (value_size (type m))) h2")
      have n3: "nodes h3 = nodes h2" using malloc_nodes [OF a3] .
      show ?thesis
      proof (cases "vp = NULL")
        case True
        with assms a1 a2 a3 nn kp n1 n2 n3 show ?thesis
          by (auto simp: map_add_append_def free_node_def nodes_keyed_upd_del nodes_keyed_del
              split: sum.splits if_splits dest!: free_nodes)
      next
        case vp: False
        from assms(1) a1 a2 a3 nn kp vp
        obtain h4 h5 n where
          c1: "memcpy kp k (unat (key_size (type m))) h3 = Inr h4" and
          c2: "memcpy vp v (unat (value_size (type m))) h4 = Inr h5" and
          ld: "load m (h5\<lparr>nodes := (nodes h5)(nn \<mapsto> \<lparr>key = kp, value = vp, next = NULL\<rparr>)\<rparr>) node = Some n" and
          st: "store node (n\<lparr>next := nn\<rparr>) (m, h5\<lparr>nodes := (nodes h5)(nn \<mapsto> \<lparr>key = kp, value = vp, next = NULL\<rparr>)\<rparr>)
                = (m'\<lparr>length_m := length_m m' - 1\<rparr>, h')" and rc: "rc = 0"
          by (auto simp: map_add_append_def Let_def split: sum.splits option.splits prod.splits)
        let ?h6 = "h5\<lparr>nodes := (nodes h5)(nn \<mapsto> \<lparr>key = kp, value = vp, next = NULL\<rparr>)\<rparr>"
        have n5: "nodes h5 = nodes h1"
          using memcpy_nodes [OF c1] memcpy_nodes [OF c2] n2 n3 by simp
        have k6: "nodes_keyed (nodes ?h6)"
          using assms(3) kp n5 n1 by (auto simp: nodes_keyed_def)
        have nk: "key n \<noteq> NULL \<or> value n \<noteq> NULL" "key n \<noteq> NULL \<or> (\<exists>i. node = Bucket i)"
          using ld assms(4) k6
          by (cases node; auto simp: load_def ref_ok_def empty_slot_def nodes_keyed_def split: if_splits)+
        from store_inv [OF st assms(2) k6] nk rc show ?thesis
          by simp
      qed
    qed
  qed
qed

lemma map_add_loop_inv_aux:
  assumes "map_add_loop m k v node h = Some y"
  shows "\<forall>rc m' h'. y = Inr (rc, m', h') \<longrightarrow> heads_ok (buckets m) \<longrightarrow> nodes_keyed (nodes h) \<longrightarrow>
      ref_ok m node \<longrightarrow> heads_ok (buckets m') \<and> nodes_keyed (nodes h')"
proof (induct m k v node h y rule: map_add_loop.raw_induct)
  case (1 loop m k v node h y)
  show ?case
  proof (intro allI impI)
    fix rc m' h'
    assume y: "y = Inr (rc, m', h')"
      and inv: "heads_ok (buckets m)" "nodes_keyed (nodes h)" "ref_ok m node"
    from 1(2) obtain n where ld: "load m h node = Some n"
      using y by (auto split: option.splits)
    show "heads_ok (buckets m') \<and> nodes_keyed (nodes h')"
    proof (cases "next n \<noteq> NULL")
      case False
      with 1(2) ld y have "map_add_append m k v node h = Inr (rc, m', h')" by simp
      from map_add_append_inv [OF this inv] show ?thesis by simp
    next
      case True
      with 1(2) ld y obtain c where c: "call_cmp m (key n) k h = Inr c"
        by (auto split: sum.splits)
      show ?thesis
      proof (cases "c = 0")
        case True
        with 1(2) ld y c \<open>next n \<noteq> NULL\<close> have "map_add_update m v n h = Inr (rc, m', h')" by simp
        from map_add_update_rc [OF this] inv show ?thesis by simp
      next
        case False
        with 1(2) ld y c \<open>next n \<noteq> NULL\<close> have l: "loop m k v (Node (next n)) h = Some y" by simp
        from 1(1) [OF l] y inv show ?thesis
          by (simp add: ref_ok_def)
      qed
    qed
  qed
qed (rule assms)

lemma map_add_loop_inv:
  "map_add_loop m k v node h = Some (Inr (rc, m', h')) \<Longrightarrow> heads_ok (buckets m) \<Longrightarrow>
   nodes_keyed (nodes h) \<Longrightarrow> ref_ok m node \<Longrightarrow> heads_ok (buckets m') \<and> nodes_keyed (nodes h')"
  using map_add_loop_inv_aux by blast

lemma map_add_kv_inv:
  assumes "map_add_kv m k v h = Some (Inr (rc, m', h'))" and "heads_ok (buckets m)" and "nodes_keyed (nodes h)"
  shows "heads_ok (buckets m') \<and> nodes_keyed (nodes h')"
proof -
  from assms(1) obtain x where x: "call_hash m k h = Inr x" and bc: "buckets_count m \<noteq> 0"
    by (auto simp: map_add_kv_def split: sum.splits if_splits)
  let ?i = "unat (x mod buckets_count m)"
  from assms(1) x bc obtain node where ld: "load m h (Bucket ?i) = Some node"
    by (auto simp: map_add_kv_def Let_def split: option.splits)
  then have i: "?i < length (buckets m)" "node = buckets m ! ?i"
    by (auto simp: load_bucket)
  show ?thesis
  proof (cases "key node = NULL \<and> value node = NULL")
    case True
    with assms(1) x bc ld have f: "map_add_first m ?i node k v h = Inr (rc, m', h')"
      by (simp add: map_add_kv_def Let_def)
    have "next node = NULL"
      using assms(2) i True by (auto simp: heads_ok_def empty_slot_def)
    from map_add_first_inv [OF f assms(2,3) this] show ?thesis by simp
  next
    case False
    with assms(1) x bc ld have f: "map_add_loop m k v (Bucket ?i) h = Some (Inr (rc, m', h'))"
      by (auto simp: map_add_kv_def Let_def)
    have "ref_ok m (Bucket ?i)"
      using i False by (auto simp: ref_ok_def empty_slot_def)
    with map_add_loop_inv [OF f] assms(2,3) show ?thesis by blast
  qed
qed


lemma map_remove_found_inv:
  assumes f: "map_remove_found m r n prev h = Inr (rc, m', h')"
    and inv: "heads_ok (buckets m)" "nodes_keyed (nodes h)"
    and p0: "prev = None \<longrightarrow> (\<exists>i. r = Bucket i)"
    and p1: "\<forall>p. prev = Some p \<longrightarrow> (\<exists>pn. load m h p = Some pn \<and> next pn \<noteq> NULL)"
  shows "heads_ok (buckets m') \<and> nodes_keyed (nodes h')"
proof -
  from f obtain h1 h2 h3 h4 where
    s1: "call_free (key_free (type m)) (key n) h = Inr h1" and
    s2: "call_free (value_free (type m)) (value n) h1 = Inr h2" and
    s3: "free (key n) h2 = Inr h3" and
    s4: "free (value n) h3 = Inr h4"
    by (auto simp: map_remove_found_def split: sum.splits)
  have n4: "nodes h4 = nodes h"
    using call_free_nodes [OF s1] call_free_nodes [OF s2] free_nodes [OF s3] free_nodes [OF s4] by simp
  show ?thesis
  proof (cases prev)
    case (Some p)
    with p1 obtain pn where pn: "load m h p = Some pn" "next pn \<noteq> NULL" by blast
    then have pn4: "load m h4 p = Some pn"
      using n4 by (cases p) (auto simp: load_def)
    have nk: "key pn \<noteq> NULL \<or> value pn \<noteq> NULL" "key pn \<noteq> NULL \<or> (\<exists>i. p = Bucket i)"
      using pn inv
      by (cases p; auto simp: load_def heads_ok_def empty_slot_def nodes_keyed_def split: if_splits)+
    obtain m1 h5 where st: "store p (pn\<lparr>next := next n\<rparr>) (m, h4) = (m1, h5)"
      by (cases "store p (pn\<lparr>next := next n\<rparr>) (m, h4)")
    have i5: "heads_ok (buckets m1) \<and> nodes_keyed (nodes h5)"
      using store_inv [OF st inv(1)] inv(2) n4 nk by simp
    from f s1 s2 s3 s4 Some pn4 st obtain h6 where
      fr: "free_ref r h5 = Inr h6" and res: "m' = m1\<lparr>length_m := length_m m1 - 1\<rparr>" "h' = h6"
      by (auto simp: map_remove_found_def split: sum.splits)
    from fr have "nodes_keyed (nodes h6)"
      using i5 by (cases r) (auto simp: free_ref_def dest!: free_node_nodes intro: nodes_keyed_del)
    with i5 res show ?thesis by simp
  next
    case None
    with p0 obtain i where r: "r = Bucket i" by blast
    show ?thesis
    proof (cases "next n \<noteq> NULL")
      case False
      with f s1 s2 s3 s4 None r
      have res: "m' = m\<lparr>buckets := (buckets m)[i := n\<lparr>key := NULL, value := NULL\<rparr>], length_m := length_m m - 1\<rparr>"
        "h' = h4"
        by (auto simp: map_remove_found_def store_def Let_def split: sum.splits)
      with False inv n4 show ?thesis
        by (auto intro!: heads_ok_upd)
    next
      case True
      with f s1 s2 s3 s4 None r obtain nx h7 where
        nx: "nodes h4 (next n) = Some nx" and
        fr: "free_node (next n) h4 = Inr h7" and
        res: "m' = m\<lparr>buckets := (buckets m)[i := nx], length_m := length_m m - 1\<rparr>" "h' = h7"
        by (auto simp: map_remove_found_def store_def Let_def split: sum.splits option.splits)
      have "key nx \<noteq> NULL"
        using nx inv(2) n4 by (auto simp: nodes_keyed_def)
      moreover have "nodes_keyed (nodes h7)"
        using free_node_nodes [OF fr] inv(2) n4 by (auto intro: nodes_keyed_del)
      ultimately show ?thesis
        using res inv(1) by (auto intro!: heads_ok_upd simp: empty_slot_def)
    qed
  qed
qed

lemma map_remove_loop_inv_aux:
  assumes "map_remove_loop m k node prev h = Some y"
  shows "\<forall>rc m' h'. y = Inr (rc, m', h') \<longrightarrow> heads_ok (buckets m) \<longrightarrow> nodes_keyed (nodes h) \<longrightarrow>
      (prev = None \<longrightarrow> node = None \<or> (\<exists>i. node = Some (Bucket i))) \<longrightarrow>
      (\<forall>p. prev = Some p \<longrightarrow> (\<exists>pn. load m h p = Some pn \<and> node = node_ptr (next pn))) \<longrightarrow>
      heads_ok (buckets m') \<and> nodes_keyed (nodes h')"
proof (induct m k node prev h y rule: map_remove_loop.raw_induct)
  case (1 loop m k node prev h y)
  show ?case
  proof (intro allI impI)
    fix rc m' h'
    assume y: "y = Inr (rc, m', h')"
      and inv: "heads_ok (buckets m)" "nodes_keyed (nodes h)"
      and p0: "prev = None \<longrightarrow> node = None \<or> (\<exists>i. node = Some (Bucket i))"
      and p1: "\<forall>p. prev = Some p \<longrightarrow> (\<exists>pn. load m h p = Some pn \<and> node = node_ptr (next pn))"
    show "heads_ok (buckets m') \<and> nodes_keyed (nodes h')"
    proof (cases node)
      case None
      with 1(2) y inv show ?thesis by simp
    next
      case (Some r)
      with 1(2) y obtain n where ld: "load m h r = Some n"
        by (auto split: option.splits)
      have step: "loop m k (node_ptr (next n)) (Some r) h = Some y \<Longrightarrow> ?thesis"
      proof -
        assume l: "loop m k (node_ptr (next n)) (Some r) h = Some y"
        from 1(1) [OF l] y inv ld show ?thesis by simp
      qed
      show ?thesis
      proof (cases "key n = NULL")
        case True
        with 1(2) Some ld step show ?thesis by simp
      next
        case False
        with 1(2) Some ld y obtain c where c: "call_cmp m (key n) k h = Inr c"
          by (auto split: sum.splits)
        show ?thesis
        proof (cases "c = 0")
          case False
          with 1(2) Some ld c \<open>key n \<noteq> NULL\<close> step show ?thesis by simp
        next
          case True
          with 1(2) Some ld c \<open>key n \<noteq> NULL\<close> y
          have f: "map_remove_found m r n prev h = Inr (rc, m', h')" by simp
          have q0: "prev = None \<longrightarrow> (\<exists>i. r = Bucket i)"
            using p0 Some by auto
          have q1: "\<forall>p. prev = Some p \<longrightarrow> (\<exists>pn. load m h p = Some pn \<and> next pn \<noteq> NULL)"
            using p1 Some by (auto simp: node_ptr_def split: if_splits)
          from map_remove_found_inv [OF f inv q0 q1] show ?thesis .
        qed
      qed
    qed
  qed
qed (rule assms)

lemma map_remove_inv:
  assumes "map_remove m k h = Some (Inr (rc, m', h'))" and "heads_ok (buckets m)" and "nodes_keyed (nodes h)"
  shows "heads_ok (buckets m') \<and> nodes_keyed (nodes h')"
proof -
  from assms(1) obtain x where
    l: "map_remove_loop m k (Some (Bucket (unat (x mod buckets_count m)))) None h = Some (Inr (rc, m', h'))"
    by (auto simp: map_remove_def split: sum.splits if_splits)
  from map_remove_loop_inv_aux [OF l] assms(2,3) show ?thesis by simp
qed

lemma map_new_inv:
  assumes "map_new ty n h = (Some m, h')" and "nodes h = Map.empty"
  shows "heads_ok (buckets m) \<and> nodes_keyed (nodes h')"
  using assms
  by (auto simp: map_new_def alloc_ok_def Let_def heads_ok_def nodes_keyed_def
      split: prod.splits if_splits list.splits)

lemma reachable_inv: "reachable m h \<Longrightarrow> heads_ok (buckets m) \<and> nodes_keyed (nodes h)"
proof (induction rule: reachable.induct)
  case (construct h ty n m h')
  then show ?case using map_new_inv by blast
next
  case (insert m h k v rc m' h')
  then show ?case using map_add_kv_inv by blast
next
  case (remove m h k rc m' h')
  then show ?case using map_remove_inv by blast
next
  case (client m h mem' b os w)
  then show ?case by simp
qed

text \<open>
  C9. In every table reached through \<^verbatim>\<open>map_new\<close>, \<^verbatim>\<open>map_add\<close> and \<^verbatim>\<open>map_remove\<close>,
  a slot whose key and value pointers are both null has a null \<^verbatim>\<open>next\<close> pointer. So
  when \<^verbatim>\<open>map_get\<close> returns at an empty slot, or \<^verbatim>\<open>map_add\<close> fills it as a fresh
  bucket, no overflow node hangs off that slot.
\<close>

theorem empty_head_has_no_chain:
  "reachable m h \<Longrightarrow> i < length (buckets m) \<Longrightarrow>
   key (buckets m ! i) = NULL \<and> value (buckets m ! i) = NULL \<Longrightarrow> next (buckets m ! i) = NULL"
  using reachable_inv [of m h] by (auto simp: heads_ok_def empty_slot_def)


theorem empty_head_has_no_chain_witness:
  "\<exists>(m :: unit Map) h. reachable m h \<and> length (buckets m) = 2 \<and>
      key (buckets m ! 1) = NULL \<and> value (buckets m ! 1) = NULL \<and> next (buckets m ! 1) = NULL"
proof -
  let ?m0 = "\<lparr>type = int_type\<lparr>key_free := Some map_default_free, value_free := Some map_default_free\<rparr>,
              length_m = 0, buckets_count = 2,
              buckets = [\<lparr>key = NULL, value = NULL, next = NULL\<rparr>, \<lparr>key = NULL, value = NULL, next = NULL\<rparr>]\<rparr> :: unit Map"
  have s0: "nodes (client_heap []) = Map.empty"
    by (simp add: client_heap_def)
  have u: "replicate 2 x = [x, x]" for x :: MapNode
    by (simp add: numeral_2_eq_2)
  have s1: "map_new int_type 2 (client_heap []) = (Some ?m0, client_heap [])"
    by (simp add: map_new_def alloc_ok_def int_type_def client_heap_def Let_def u)
  have s2: "\<exists>m1 h1. map_add_kv ?m0 1 2 (client_heap []) = Some (Inr (0, m1, h1)) \<and>
      (\<exists>m2 h2. map_remove m1 1 h1 = Some (Inr (0, m2, h2)) \<and> length (buckets m2) = 2 \<and>
         key (buckets m2 ! 1) = NULL \<and> value (buckets m2 ! 1) = NULL)"
    by (simp add: engine_defs test_defs map_add_loop.simps map_remove_loop.simps Let_def map_default_free_def)
  then obtain m1 h1 m2 h2 where
    a: "map_add_kv ?m0 1 2 (client_heap []) = Some (Inr (0, m1, h1))" and
    r: "map_remove m1 1 h1 = Some (Inr (0, m2, h2))" and
    e: "length (buckets m2) = 2" "key (buckets m2 ! 1) = NULL \<and> value (buckets m2 ! 1) = NULL"
    by blast
  have reach: "reachable m2 h2"
    using reachable.remove [OF reachable.insert [OF reachable.construct [OF s0 s1] a] r] .
  have "next (buckets m2 ! 1) = NULL"
    using empty_head_has_no_chain [OF reach, of 1] e by simp
  with reach e show ?thesis by blast
qed

subsection \<open>Counting collisions\<close>

lemma count_chain_chain:
  "chain (nodes h) a (a # as) \<Longrightarrow> count_chain h a c = Some (Inr (c + of_nat (length as)))"
proof (induction as arbitrary: a c)
  case Nil
  then show ?case
    by (subst count_chain.simps) (auto split: option.splits)
next
  case (Cons a2 as)
  then obtain n where n: "nodes h a = Some n" "next n = a2" "a2 \<noteq> NULL" "chain (nodes h) a2 (a2 # as)"
    by (auto split: option.splits)
  from Cons.IH [OF n(4), of "c + 1"] n show ?case
    by (subst count_chain.simps) (simp add: algebra_simps)
qed

lemma bucket_collisions_eq:
  "(empty_slot b \<longrightarrow> as = []) \<Longrightarrow> bucket_collisions b as = length as"
  by (auto simp: bucket_collisions_def chain_length_def)

lemma chain_NULL: "chain ns NULL as \<longleftrightarrow> as = []"
  by (cases as) auto

lemma chain_nonnull: "p \<noteq> NULL \<Longrightarrow> chain ns p as \<Longrightarrow> \<exists>as'. as = p # as'"
  by (cases as) auto

lemma count_buckets_sum:
  assumes len: "unat (buckets_count m) = length (buckets m)"
    and all: "list_all2 (\<lambda>b as. chain (nodes h) (next b) as \<and> (empty_slot b \<longrightarrow> as = [])) (buckets m) ass"
  shows "i \<le> length (buckets m) \<Longrightarrow>
    count_buckets m h i c =
      Some (Inr (c + of_nat (\<Sum>j = i..<length (buckets m). bucket_collisions (buckets m ! j) (ass ! j))))"
proof (induction "length (buckets m) - i" arbitrary: i c)
  case 0
  then have "i = length (buckets m)" by simp
  then show ?case
    by (subst count_buckets.simps) (simp add: len)
next
  case (Suc k)
  then have i: "i < length (buckets m)" by simp
  let ?b = "buckets m ! i" and ?as = "ass ! i"
  have ch: "chain (nodes h) (next ?b) ?as" and em: "empty_slot ?b \<longrightarrow> ?as = []"
    using list_all2_nthD [OF all i] by simp_all
  have ld: "load m h (Bucket i) = Some ?b"
    using i by (simp add: load_def)
  have k: "k = length (buckets m) - Suc i" and si: "Suc i \<le> length (buckets m)"
    using Suc.hyps(2) i by simp_all
  have split: "(\<Sum>j = i..<length (buckets m). bucket_collisions (buckets m ! j) (ass ! j))
      = length ?as + (\<Sum>j = Suc i..<length (buckets m). bucket_collisions (buckets m ! j) (ass ! j))"
    using i by (simp add: sum.atLeast_Suc_lessThan bucket_collisions_eq [OF em])
  show ?case
  proof (cases "next ?b = NULL")
    case True
    then have "?as = []" using ch by (simp add: chain_NULL)
    with True Suc.hyps(1) [OF k si, of c] split ld i show ?thesis
      by (subst count_buckets.simps) (simp add: len)
  next
    case False
    with ch obtain as' where as': "?as = next ?b # as'"
      using chain_nonnull by blast
    with ch have "count_chain h (next ?b) (c + 1) = Some (Inr (c + 1 + of_nat (length as')))"
      using count_chain_chain by metis
    with False Suc.hyps(1) [OF k si, of "c + 1 + of_nat (length as')"] split ld i as' show ?thesis
      by (subst count_buckets.simps) (simp add: len algebra_simps)
  qed
qed

text \<open>
  C7. For a table whose buckets head the chains \<open>ass\<close>, \<^verbatim>\<open>map_count_collisions\<close>
  returns the sum over the buckets of \<open>max(0, chain length - 1)\<close> (as a \<^verbatim>\<open>size_t\<close>):
  every entry beyond the head counts once, a bucket with no or one entry counts zero. So
  a table with at most one entry in every bucket reports zero collisions.
\<close>

theorem count_collisions_sum:
  assumes "chains_of m h ass"
  shows "map_count_collisions m h =
      Some (Inr (of_nat (\<Sum>j < length (buckets m). bucket_collisions (buckets m ! j) (ass ! j)))) \<and>
    ((\<forall>j < length (buckets m). chain_length (buckets m ! j) (ass ! j) \<le> 1) \<longrightarrow>
       map_count_collisions m h = Some (Inr 0))"
proof -
  from assms have len: "unat (buckets_count m) = length (buckets m)"
    and all: "list_all2 (\<lambda>b as. chain (nodes h) (next b) as \<and> (empty_slot b \<longrightarrow> as = [])) (buckets m) ass"
    by (simp_all add: chains_of_def)
  have eq: "map_count_collisions m h =
      Some (Inr (of_nat (\<Sum>j < length (buckets m). bucket_collisions (buckets m ! j) (ass ! j))))"
    using count_buckets_sum [OF len all, of 0 0]
    by (simp add: map_count_collisions_def atLeast0LessThan)
  moreover have "(\<Sum>j < length (buckets m). bucket_collisions (buckets m ! j) (ass ! j)) = 0"
    if "\<forall>j < length (buckets m). chain_length (buckets m ! j) (ass ! j) \<le> 1"
    using that by (auto simp: bucket_collisions_def)
  ultimately show ?thesis by simp
qed


lemma chained_chains: "chains_of chained_table chained_heap [[11, 14], []]"
  by (simp add: chains_of_def chained_defs empty_slot_def)

theorem count_collisions_sum_witness:
  "reachable chained_table chained_heap \<and>
   chains_of chained_table chained_heap [[11, 14], []] \<and>
   map_count_collisions chained_table chained_heap = Some (Inr 2)"
proof -
  have "(\<Sum>j < length (buckets chained_table).
          bucket_collisions (buckets chained_table ! j) ([[11, 14], []] ! j)) = 2"
    by (simp add: chained_table_def bucket_collisions_def chain_length_def empty_slot_def
        numeral_2_eq_2 lessThan_Suc)
  with count_collisions_sum [OF chained_chains] chained_chains chained_reachable show ?thesis
    by simp
qed

subsection \<open>Removing the head of a chain\<close>

lemma distinct_concat_nth:
  "distinct (concat xss) \<Longrightarrow> i < length xss \<Longrightarrow> j < length xss \<Longrightarrow> i \<noteq> j \<Longrightarrow>
   set (xss ! i) \<inter> set (xss ! j) = {}"
proof (induction xss arbitrary: i j)
  case Nil
  then show ?case by simp
next
  case (Cons xs xss)
  show ?case
  proof (cases i)
    case 0
    with Cons.prems obtain j' where "j = Suc j'" "j' < length xss"
      by (cases j) auto
    with 0 Cons.prems(1) show ?thesis
      by (auto dest: nth_mem)
  next
    case (Suc i')
    show ?thesis
    proof (cases j)
      case 0
      with Suc Cons.prems show ?thesis
        by (auto dest: nth_mem)
    next
      case (Suc j')
      with \<open>i = Suc i'\<close> Cons.prems Cons.IH [of i' j'] show ?thesis
        by auto
    qed
  qed
qed

lemma distinct_concat_nth_distinct:
  "distinct (concat xss) \<Longrightarrow> i < length xss \<Longrightarrow> distinct (xss ! i)"
  by (induction xss arbitrary: i) (auto simp: nth_Cons split: nat.splits)

lemma node_ptr_simps [simp]: "node_ptr NULL = None" "a \<noteq> NULL \<Longrightarrow> node_ptr a = Some (Node a)"
  by (simp_all add: node_ptr_def)

lemma call_cmp_frame:
  "key_cmp (type m') = key_cmp (type m) \<Longrightarrow> mem h' a = mem h a \<Longrightarrow> mem h' b = mem h b \<Longrightarrow>
   call_cmp m' a b h' = call_cmp m a b h"
  by (simp add: call_cmp_def split: option.splits)

lemma map_get_loop_None [simp]: "map_get_loop m k None h = Some (Inr NULL)"
  by (subst map_get_loop.simps) simp

lemma map_get_loop_frame:
  assumes ty: "key_cmp (type m') = key_cmp (type m)" and k: "mem h' k = mem h k"
  shows "chain (nodes h) p as \<Longrightarrow>
    \<forall>a \<in> set as. nodes h' a = nodes h a \<Longrightarrow>
    \<forall>a \<in> set as. \<forall>n. nodes h a = Some n \<longrightarrow> mem h' (key n) = mem h (key n) \<Longrightarrow>
    map_get_loop m' k (node_ptr p) h' = map_get_loop m k (node_ptr p) h"
proof (induction as arbitrary: p)
  case Nil
  then show ?case by simp
next
  case (Cons a as)
  then obtain n where n: "p = a" "a \<noteq> NULL" "nodes h a = Some n" "chain (nodes h) (next n) as"
    by (auto split: option.splits)
  have n': "nodes h' a = Some n" and kn: "mem h' (key n) = mem h (key n)"
    using Cons.prems n by auto
  have IH: "map_get_loop m' k (node_ptr (next n)) h' = map_get_loop m k (node_ptr (next n)) h"
    using Cons.IH [OF n(4)] Cons.prems by simp
  have c: "call_cmp m' (key n) k h' = call_cmp m (key n) k h"
    using call_cmp_frame [OF ty kn k] .
  show ?case
    using n n' IH c
    by (subst map_get_loop.simps, subst (2) map_get_loop.simps) (simp add: load_def split: sum.splits)
qed

lemma map_get_loop_value:
  "chain (nodes h) p as \<Longrightarrow> map_get_loop m k (node_ptr p) h = Some (Inr q) \<Longrightarrow> q \<noteq> NULL \<Longrightarrow>
   \<exists>a \<in> set as. \<exists>n. nodes h a = Some n \<and> q = value n"
proof (induction as arbitrary: p)
  case Nil
  then show ?case by simp
next
  case (Cons a as)
  then obtain n where n: "p = a" "a \<noteq> NULL" "nodes h a = Some n" "chain (nodes h) (next n) as"
    by (auto split: option.splits)
  from Cons.prems(2) n have
    "q = value n \<or> map_get_loop m k (node_ptr (next n)) h = Some (Inr q)"
    using Cons.prems(3)
    by (subst (asm) map_get_loop.simps) (auto simp: load_def split: if_splits sum.splits)
  then show ?case
  proof
    assume "q = value n"
    with n show ?thesis by auto
  next
    assume "map_get_loop m k (node_ptr (next n)) h = Some (Inr q)"
    from Cons.IH [OF n(4) this Cons.prems(3)] show ?thesis by auto
  qed
qed


lemma map_get_loop_step:
  "load m h r = Some n \<Longrightarrow>
   map_get_loop m k (Some r) h =
     (if key n = NULL \<and> value n = NULL then Some (Inr NULL)
      else (case call_cmp m (key n) k h of
              Inl e \<Rightarrow> Some (Inl e)
            | Inr c \<Rightarrow> if c = 0 then Some (Inr (value n)) else map_get_loop m k (node_ptr (next n)) h))"
  by (subst map_get_loop.simps) simp

lemma blocks_of_head: "\<not> empty_slot b \<Longrightarrow> key b \<in> set (blocks_of h b as) \<and> value b \<in> set (blocks_of h b as)"
  by (simp add: blocks_of_def)

lemma blocks_of_node:
  "a \<in> set as \<Longrightarrow> nodes h a = Some n \<Longrightarrow>
   key n \<in> set (blocks_of h b as) \<and> value n \<in> set (blocks_of h b as)"
  by (force simp: blocks_of_def)

lemma blocks_of_Cons:
  "nodes h a = Some n \<Longrightarrow> \<not> empty_slot b \<Longrightarrow>
   blocks_of h b (a # as) = key b # value b # key n # value n #
      concat (map (\<lambda>a. case nodes h a of None \<Rightarrow> [] | Some n \<Rightarrow> [key n, value n]) as)"
  by (simp add: blocks_of_def)

lemma set_nth_concat: "i < length xss \<Longrightarrow> set (xss ! i) \<subseteq> set (concat xss)"
  using nth_mem by fastforce

lemma wf_nth:
  assumes "well_formed m h ass" and "j < length (buckets m)"
  shows "chain (nodes h) (next (buckets m ! j)) (ass ! j)"
    and "empty_slot (buckets m ! j) \<longrightarrow> ass ! j = []"
    and "length ass = length (buckets m)"
    and "unat (buckets_count m) = length (buckets m)"
    and "distinct (ass ! j)"
    and "distinct (blocks_of h (buckets m ! j) (ass ! j))"
    and "\<forall>p \<in> set (blocks_of h (buckets m ! j) (ass ! j)). p \<noteq> NULL \<and> mem h p \<noteq> None"
proof -
  from assms(1) have
    all: "list_all2 (\<lambda>b as. chain (nodes h) (next b) as \<and> (empty_slot b \<longrightarrow> as = [])) (buckets m) ass"
    and len: "unat (buckets_count m) = length (buckets m)"
    and da: "distinct (concat ass)"
    and db: "distinct (concat (map2 (blocks_of h) (buckets m) ass))"
    and live: "\<forall>p \<in> set (concat (map2 (blocks_of h) (buckets m) ass)). p \<noteq> NULL \<and> mem h p \<noteq> None"
    by (simp_all add: well_formed_def chains_of_def)
  show l: "length ass = length (buckets m)"
    using all by (simp add: list_all2_lengthD)
  show "unat (buckets_count m) = length (buckets m)" by (rule len)
  show "chain (nodes h) (next (buckets m ! j)) (ass ! j)" "empty_slot (buckets m ! j) \<longrightarrow> ass ! j = []"
    using list_all2_nthD [OF all assms(2)] by simp_all
  show "distinct (ass ! j)"
    using distinct_concat_nth_distinct [OF da] assms(2) l by simp
  have nth: "map2 (blocks_of h) (buckets m) ass ! j = blocks_of h (buckets m ! j) (ass ! j)"
    using assms(2) l by simp
  show "distinct (blocks_of h (buckets m ! j) (ass ! j))"
    using distinct_concat_nth_distinct [OF db, of j] assms(2) l nth by simp
  have "set (map2 (blocks_of h) (buckets m) ass ! j) \<subseteq> set (concat (map2 (blocks_of h) (buckets m) ass))"
    using assms(2) l by (intro set_nth_concat) simp
  with live nth show "\<forall>p \<in> set (blocks_of h (buckets m ! j) (ass ! j)). p \<noteq> NULL \<and> mem h p \<noteq> None"
    by auto
qed

lemma wf_disjoint:
  assumes "well_formed m h ass" and "i < length (buckets m)" and "j < length (buckets m)" and "i \<noteq> j"
  shows "set (ass ! i) \<inter> set (ass ! j) = {}"
    and "set (blocks_of h (buckets m ! i) (ass ! i)) \<inter> set (blocks_of h (buckets m ! j) (ass ! j)) = {}"
proof -
  from assms(1) have da: "distinct (concat ass)"
    and db: "distinct (concat (map2 (blocks_of h) (buckets m) ass))"
    by (simp_all add: well_formed_def)
  have l: "length ass = length (buckets m)"
    using wf_nth(3) [OF assms(1,2)] .
  show "set (ass ! i) \<inter> set (ass ! j) = {}"
    using distinct_concat_nth [OF da, of i j] assms l by simp
  show "set (blocks_of h (buckets m ! i) (ass ! i)) \<inter> set (blocks_of h (buckets m ! j) (ass ! j)) = {}"
    using distinct_concat_nth [OF db, of i j] assms l by simp
qed


lemma map_remove_found_head:
  assumes "key_free (type m) = Some kf" and "value_free (type m) = Some vf"
    and "key b \<noteq> NULL" and "mem h (key b) \<noteq> None"
    and "value b \<noteq> NULL" and "value b \<noteq> key b" and "mem h (value b) \<noteq> None"
    and "next b \<noteq> NULL" and "nodes h (next b) = Some n1"
  shows "map_remove_found m (Bucket i) b None h =
     Inr (0, m\<lparr>buckets := (buckets m)[i := n1], length_m := length_m m - 1\<rparr>, removed_head_heap kf vf b h)"
  using assms
  by (simp add: map_remove_found_def call_free_def free_def store_def free_node_def Let_def
      removed_head_heap_def)


lemma call_hash_frame:
  "key_hash (type m') = key_hash (type m) \<Longrightarrow> mem h' k = mem h k \<Longrightarrow>
   call_hash m' k h' = call_hash m k h"
  by (simp add: call_hash_def split: option.splits)

lemma unat_mod_less: "bc \<noteq> 0 \<Longrightarrow> unat (x mod bc) < unat (bc :: size_t)"
  by (simp add: unat_mod_distrib unat_gt_0)

lemma removed_head_heap_simps [simp]:
  "mem (removed_head_heap kf vf b h) = (mem h)(key b := None, value b := None)"
  "nodes (removed_head_heap kf vf b h) = (nodes h)(next b := None)"
  by (simp_all add: removed_head_heap_def)

lemma chain_frame:
  "chain ns p as \<Longrightarrow> \<forall>a \<in> set as. ns' a = ns a \<Longrightarrow> chain ns' p as"
  by (induction as arbitrary: p) (auto split: option.splits)

lemma set_concat_update_subset:
  "i < length xss \<Longrightarrow> set ys \<subseteq> set (xss ! i) \<Longrightarrow> set (concat (xss[i := ys])) \<subseteq> set (concat xss)"
proof (induction xss arbitrary: i)
  case Nil
  then show ?case by simp
next
  case (Cons xs xss)
  then show ?case
    by (cases i) auto
qed

lemma distinct_concat_update:
  "distinct (concat xss) \<Longrightarrow> i < length xss \<Longrightarrow> distinct ys \<Longrightarrow> set ys \<subseteq> set (xss ! i) \<Longrightarrow>
   distinct (concat (xss[i := ys]))"
proof (induction xss arbitrary: i)
  case Nil
  then show ?case by simp
next
  case (Cons xs xss)
  show ?case
  proof (cases i)
    case 0
    with Cons.prems show ?thesis by auto
  next
    case (Suc i')
    with Cons.prems have d: "distinct (concat (xss[i' := ys]))"
      using Cons.IH [of i'] by simp
    have "set (concat (xss[i' := ys])) \<subseteq> set (concat xss)"
      using set_concat_update_subset [of i' xss ys] Cons.prems Suc by simp
    with d Suc Cons.prems(1) show ?thesis by auto
  qed
qed

lemma in_concat_nth: "p \<in> set (concat xss) \<Longrightarrow> \<exists>j < length xss. p \<in> set (xss ! j)"
proof -
  assume "p \<in> set (concat xss)"
  then obtain xs where "xs \<in> set xss" "p \<in> set xs" by auto
  then show ?thesis by (metis in_set_conv_nth)
qed

lemma blocks_of_frame:
  "\<forall>a \<in> set as. nodes h' a = nodes h a \<Longrightarrow> blocks_of h' b as = blocks_of h b as"
  by (simp add: blocks_of_def cong: map_cong)

lemma remove_head_well_formed:
  assumes wf: "well_formed m h ass" and i: "i < length (buckets m)"
    and nxt: "next (buckets m ! i) \<noteq> NULL" and n1: "nodes h (next (buckets m ! i)) = Some n1"
  shows "well_formed (m\<lparr>buckets := (buckets m)[i := n1], length_m := length_m m - 1\<rparr>)
           (removed_head_heap kf vf (buckets m ! i) h) (ass[i := tl (ass ! i)])"
proof -
  let ?b = "buckets m ! i"
  let ?h' = "removed_head_heap kf vf ?b h"
  let ?bs' = "(buckets m)[i := n1]"
  let ?ass' = "ass[i := tl (ass ! i)]"
  let ?B = "map2 (blocks_of h) (buckets m) ass"
  note w = wf_nth [OF wf i]
  from nxt w(1) obtain rest where as: "ass ! i = next ?b # rest"
    using chain_nonnull by blast
  then have ne: "\<not> empty_slot ?b"
    using w(2) by auto
  from as w(1) n1 have ch1: "chain (nodes h) (next n1) rest"
    by (auto split: option.splits)
  have blk: "blocks_of h ?b (ass ! i) = key ?b # value ?b # key n1 # value n1 #
      concat (map (\<lambda>a. case nodes h a of None \<Rightarrow> [] | Some n \<Rightarrow> [key n, value n]) rest)"
    using blocks_of_Cons [OF n1 ne] as by simp
  have a1: "next ?b \<notin> set rest"
    using w(5) as by simp
  have nn1: "\<not> empty_slot n1"
    using w(7) blk by (auto simp: empty_slot_def)
  have da: "distinct (concat ass)" and dB: "distinct (concat ?B)"
    using wf by (simp_all add: well_formed_def)
  have lB: "length ?B = length (buckets m)"
    using w(3) by simp
  \<comment> \<open>chains\<close>
  have fr: "\<forall>a \<in> set (?ass' ! j). nodes ?h' a = nodes h a" if "j < length (buckets m)" for j
  proof (cases "j = i")
    case True
    with a1 as i w(3) show ?thesis by auto
  next
    case False
    with wf_disjoint(1) [OF wf i that] as show ?thesis by auto
  qed
  have chains: "chains_of (m\<lparr>buckets := ?bs', length_m := length_m m - 1\<rparr>) ?h' ?ass'"
    unfolding chains_of_def
  proof (intro conjI)
    show "unat (buckets_count (m\<lparr>buckets := ?bs', length_m := length_m m - 1\<rparr>)) =
        length (buckets (m\<lparr>buckets := ?bs', length_m := length_m m - 1\<rparr>))"
      using w(4) by simp
    show "list_all2 (\<lambda>b as. chain (nodes ?h') (next b) as \<and> (empty_slot b \<longrightarrow> as = []))
        (buckets (m\<lparr>buckets := ?bs', length_m := length_m m - 1\<rparr>)) ?ass'"
    proof (simp only: list_all2_conv_all_nth, intro conjI allI impI)
      show "length (buckets (m\<lparr>buckets := ?bs', length_m := length_m m - 1\<rparr>)) = length ?ass'"
        using w(3) by simp
    next
      fix j
      assume "j < length (buckets (m\<lparr>buckets := ?bs', length_m := length_m m - 1\<rparr>))"
      then have j: "j < length (buckets m)" by simp
      note wj = wf_nth [OF wf j]
      show "chain (nodes ?h') (next (buckets (m\<lparr>buckets := ?bs', length_m := length_m m - 1\<rparr>) ! j)) (?ass' ! j)"
      proof (cases "j = i")
        case True
        have "chain (nodes ?h') (next n1) rest"
          using chain_frame [OF ch1] a1 by simp
        with True i w(3) as show ?thesis by simp
      next
        case False
        have "chain (nodes ?h') (next (buckets m ! j)) (ass ! j)"
          using chain_frame [OF wj(1)] fr [OF j] False by simp
        with False show ?thesis by simp
      qed
    next
      fix j
      assume "j < length (buckets (m\<lparr>buckets := ?bs', length_m := length_m m - 1\<rparr>))"
        and e: "empty_slot (buckets (m\<lparr>buckets := ?bs', length_m := length_m m - 1\<rparr>) ! j)"
      then have j: "j < length (buckets m)" by simp
      show "?ass' ! j = []"
      proof (cases "j = i")
        case True
        with e i nn1 show ?thesis by simp
      next
        case False
        with e wf_nth(2) [OF wf j] show ?thesis by simp
      qed
    qed
  qed
  \<comment> \<open>overflow nodes\<close>
  have dn: "distinct (concat ?ass')"
  proof (rule distinct_concat_update [OF da])
    show "i < length ass" using i w(3) by simp
    show "distinct (tl (ass ! i))" using w(5) by (simp add: distinct_tl)
    show "set (tl (ass ! i)) \<subseteq> set (ass ! i)" using as by auto
  qed
  \<comment> \<open>blocks\<close>
  have B': "map2 (blocks_of ?h') ?bs' ?ass' = ?B[i := drop 2 (?B ! i)]"
  proof (rule nth_equalityI)
    show "length (map2 (blocks_of ?h') ?bs' ?ass') = length (?B[i := drop 2 (?B ! i)])"
      using w(3) by simp
  next
    fix j
    assume "j < length (map2 (blocks_of ?h') ?bs' ?ass')"
    then have j: "j < length (buckets m)" using w(3) by simp
    show "map2 (blocks_of ?h') ?bs' ?ass' ! j = ?B[i := drop 2 (?B ! i)] ! j"
    proof (cases "j = i")
      case True
      have "blocks_of ?h' n1 rest = blocks_of h n1 rest"
        using blocks_of_frame [of rest ?h' h n1] a1 by simp
      also have "\<dots> = drop 2 (blocks_of h ?b (ass ! i))"
        using blk nn1 by (simp add: blocks_of_def)
      finally show ?thesis
        using True i w(3) as by simp
    next
      case False
      have "blocks_of ?h' (buckets m ! j) (ass ! j) = blocks_of h (buckets m ! j) (ass ! j)"
        using blocks_of_frame [of "ass ! j" ?h' h] fr [OF j] False by simp
      with False j w(3) show ?thesis by simp
    qed
  qed
  have Bi: "?B ! i = blocks_of h ?b (ass ! i)"
    using i w(3) by simp
  have db: "distinct (concat (?B[i := drop 2 (?B ! i)]))"
  proof (rule distinct_concat_update [OF dB])
    show "i < length ?B" using i lB by simp
    show "distinct (drop 2 (?B ! i))" using w(6) Bi by simp
    show "set (drop 2 (?B ! i)) \<subseteq> set (?B ! i)" by (rule set_drop_subset)
  qed
  have live: "p \<noteq> NULL \<and> mem ?h' p \<noteq> None" if "p \<in> set (concat (?B[i := drop 2 (?B ! i)]))" for p
  proof -
    from in_concat_nth [OF that] obtain j where j: "j < length (buckets m)"
      and pj: "p \<in> set (?B[i := drop 2 (?B ! i)] ! j)"
      using lB by auto
    have "p \<in> set (blocks_of h (buckets m ! j) (ass ! j)) \<and> p \<noteq> key ?b \<and> p \<noteq> value ?b"
    proof (cases "j = i")
      case True
      define R where "R = drop 2 (blocks_of h ?b (ass ! i))"
      have bR: "blocks_of h ?b (ass ! i) = key ?b # value ?b # R"
        using blk by (simp add: R_def)
      have pR: "p \<in> set R"
        using pj True i lB Bi by (simp add: R_def)
      from w(6) bR have "distinct (key ?b # value ?b # R)" by simp
      with pR bR True show ?thesis by auto
    next
      case False
      with pj j w(3) have "p \<in> set (blocks_of h (buckets m ! j) (ass ! j))" by simp
      with wf_disjoint(2) [OF wf i j] False blocks_of_head [OF ne, of h "ass ! i"] show ?thesis by auto
    qed
    with wf_nth(7) [OF wf j] show ?thesis by simp
  qed
  show ?thesis
    unfolding well_formed_def
    using chains dn db live B' by (simp del: removed_head_heap_simps)
qed

text \<open>
  C4. In a well-formed table let the key \<open>k\<close> hash to bucket \<open>i\<close>, compare equal to
  the key in the slot, and let the slot have a successor \<open>n1\<close>. Then \<^verbatim>\<open>map_remove\<close>
  returns 0; \<^verbatim>\<open>key_free\<close> and \<^verbatim>\<open>value_free\<close> have run on the slot's own key and value
  blocks, which are then released; the slot holds the three fields of \<open>n1\<close>; the
  overflow node of \<open>n1\<close> is released; the length is one less. Every \<^verbatim>\<open>map_get\<close> that
  returned the value block of another entry (the promoted one included) returns the same
  block afterwards, with the same bytes; and the table is well-formed again, its bucket
  \<open>i\<close> heading the rest of the old chain.
\<close>

theorem remove_head_promotes_successor:
  assumes wf: "well_formed m h ass"
    and kf: "key_free (type m) = Some kf" and vf: "value_free (type m) = Some vf"
    and hash: "call_hash m k h = Inr x" and i: "unat (x mod buckets_count m) = i" "i < length (buckets m)"
    and cmp: "call_cmp m (key (buckets m ! i)) k h = Inr 0"
    and nxt: "next (buckets m ! i) \<noteq> NULL"
  shows "\<exists>n1. nodes h (next (buckets m ! i)) = Some n1 \<and>
      map_remove m k h =
        Some (Inr (0, m\<lparr>buckets := (buckets m)[i := n1], length_m := length_m m - 1\<rparr>,
                   removed_head_heap kf vf (buckets m ! i) h)) \<and>
      (\<forall>k' p. k' \<noteq> key (buckets m ! i) \<and> k' \<noteq> value (buckets m ! i) \<and>
              map_get m k' h = Some (Inr p) \<and> p \<noteq> NULL \<and> p \<noteq> value (buckets m ! i) \<longrightarrow>
              map_get (m\<lparr>buckets := (buckets m)[i := n1], length_m := length_m m - 1\<rparr>) k'
                (removed_head_heap kf vf (buckets m ! i) h) = Some (Inr p) \<and>
              mem (removed_head_heap kf vf (buckets m ! i) h) p = mem h p) \<and>
      well_formed (m\<lparr>buckets := (buckets m)[i := n1], length_m := length_m m - 1\<rparr>)
        (removed_head_heap kf vf (buckets m ! i) h) (ass[i := tl (ass ! i)])"
proof -
  let ?b = "buckets m ! i"
  let ?h' = "removed_head_heap kf vf ?b h"
  note w = wf_nth [OF wf i(2)]
  have bc: "buckets_count m \<noteq> 0"
    using w(4) i(2) by auto
  from nxt w(1) obtain rest where as: "ass ! i = next ?b # rest"
    using chain_nonnull by blast
  then have ne: "\<not> empty_slot ?b"
    using w(2) by auto
  from as w(1) nxt obtain n1 where n1: "nodes h (next ?b) = Some n1" and ch1: "chain (nodes h) (next n1) rest"
    by (auto split: option.splits)
  let ?m' = "m\<lparr>buckets := (buckets m)[i := n1], length_m := length_m m - 1\<rparr>"
  have blk: "blocks_of h ?b (ass ! i) = key ?b # value ?b # key n1 # value n1 #
      concat (map (\<lambda>a. case nodes h a of None \<Rightarrow> [] | Some n \<Rightarrow> [key n, value n]) rest)"
    using blocks_of_Cons [OF n1 ne] as by simp
  have hb: "key ?b \<noteq> NULL" "mem h (key ?b) \<noteq> None" "value ?b \<noteq> NULL" "mem h (value ?b) \<noteq> None"
    "value ?b \<noteq> key ?b"
    using w(6,7) blk by auto
  have a1: "next ?b \<notin> set rest"
    using w(5) as by simp
  \<comment> \<open>the blocks of every other entry are not the two released ones\<close>
  have other_i: "key n \<noteq> key ?b \<and> key n \<noteq> value ?b \<and> value n \<noteq> key ?b \<and> value n \<noteq> value ?b"
    if "a \<in> set (ass ! i)" "nodes h a = Some n" for a n
  proof -
    have "a = next ?b \<and> n = n1 \<or> a \<in> set rest"
      using that as n1 by auto
    then show ?thesis
    proof
      assume "a = next ?b \<and> n = n1"
      with w(6) blk show ?thesis by auto
    next
      assume "a \<in> set rest"
      then have "key n \<in> set (concat (map (\<lambda>a. case nodes h a of None \<Rightarrow> [] | Some n \<Rightarrow> [key n, value n]) rest))"
        "value n \<in> set (concat (map (\<lambda>a. case nodes h a of None \<Rightarrow> [] | Some n \<Rightarrow> [key n, value n]) rest))"
        using that(2) by force+
      with w(6) blk show ?thesis by auto
    qed
  qed
  have other_j: "p \<noteq> key ?b \<and> p \<noteq> value ?b"
    if "j < length (buckets m)" "j \<noteq> i" "p \<in> set (blocks_of h (buckets m ! j) (ass ! j))" for j p
    using wf_disjoint(2) [OF wf i(2) that(1)] that(2,3) blocks_of_head [OF ne, of h "ass ! i"] by auto
  \<comment> \<open>the call itself\<close>
  have run: "map_remove m k h = Some (Inr (0, ?m', ?h'))"
    using hash bc i cmp hb map_remove_found_head [OF kf vf hb(1,2,3,5,4) nxt n1, of i]
    by (simp add: map_remove_def load_def map_remove_loop.simps [of m k "Some (Bucket i)"])
  \<comment> \<open>lookups of the other entries\<close>
  have look: "map_get ?m' k' ?h' = Some (Inr p) \<and> mem ?h' p = mem h p"
    if k': "k' \<noteq> key ?b" "k' \<noteq> value ?b" and g: "map_get m k' h = Some (Inr p)"
      and p: "p \<noteq> NULL" "p \<noteq> value ?b" for k' p
  proof -
    have mk: "mem ?h' k' = mem h k'"
      using k' by simp
    from g obtain x' where x': "call_hash m k' h = Inr x'"
      by (auto simp: map_get_def split: sum.splits)
    let ?j = "unat (x' mod buckets_count m)"
    have j: "?j < length (buckets m)"
      using unat_mod_less [OF bc, of x'] w(4) by simp
    have gl: "map_get_loop m k' (Some (Bucket ?j)) h = Some (Inr p)"
      using g x' bc by (simp add: map_get_def)
    have hash': "call_hash ?m' k' ?h' = Inr x'"
      using call_hash_frame [of ?m' m ?h' k' h, OF _ mk] x' by simp
    have goal1: "map_get ?m' k' ?h' = map_get_loop ?m' k' (Some (Bucket ?j)) ?h'"
      using hash' bc by (simp add: map_get_def)
    have ty: "key_cmp (type ?m') = key_cmp (type m)" by simp
    show ?thesis
    proof (cases "?j = i")
      case False
      let ?bj = "buckets m ! ?j"
      note wj = wf_nth [OF wf j]
      have ld: "load m h (Bucket ?j) = Some ?bj" "load ?m' ?h' (Bucket ?j) = Some ?bj"
        using j False by (simp_all add: load_def)
      have nd: "\<forall>a \<in> set (ass ! ?j). nodes ?h' a = nodes h a"
        using wf_disjoint(1) [OF wf i(2) j] False as by auto
      have kd: "\<forall>a \<in> set (ass ! ?j). \<forall>n. nodes h a = Some n \<longrightarrow> mem ?h' (key n) = mem h (key n)"
        using other_j [OF j False] blocks_of_node [of _ "ass ! ?j" h _ ?bj] by fastforce
      have tl: "map_get_loop ?m' k' (node_ptr (next ?bj)) ?h' = map_get_loop m k' (node_ptr (next ?bj)) h"
        using map_get_loop_frame [OF ty mk wj(1) nd kd] .
      have hk: "\<not> empty_slot ?bj \<Longrightarrow> mem ?h' (key ?bj) = mem h (key ?bj)"
        using other_j [OF j False] blocks_of_head [of ?bj h "ass ! ?j"] by fastforce
      have eq: "map_get_loop ?m' k' (Some (Bucket ?j)) ?h' = map_get_loop m k' (Some (Bucket ?j)) h"
      proof (cases "empty_slot ?bj")
        case True
        then show ?thesis
          by (simp add: map_get_loop_step [OF ld(1)] map_get_loop_step [OF ld(2)] empty_slot_def)
      next
        case False
        have "call_cmp ?m' (key ?bj) k' ?h' = call_cmp m (key ?bj) k' h"
          using call_cmp_frame [OF ty hk [OF False] mk] .
        with tl show ?thesis
          by (simp add: map_get_loop_step [OF ld(1)] map_get_loop_step [OF ld(2)] split: sum.splits)
      qed
      have pin: "p \<in> set (blocks_of h ?bj (ass ! ?j))"
      proof -
        from gl p(1) have "\<not> empty_slot ?bj"
          by (auto simp: map_get_loop_step [OF ld(1)] empty_slot_def split: if_splits)
        from gl this have "p = value ?bj \<or> map_get_loop m k' (node_ptr (next ?bj)) h = Some (Inr p)"
          by (auto simp: map_get_loop_step [OF ld(1)] empty_slot_def split: sum.splits if_splits)
        then show ?thesis
        proof
          assume "p = value ?bj"
          with blocks_of_head [OF \<open>\<not> empty_slot ?bj\<close>, of h "ass ! ?j"] show ?thesis by simp
        next
          assume "map_get_loop m k' (node_ptr (next ?bj)) h = Some (Inr p)"
          from map_get_loop_value [OF wj(1) this p(1)] blocks_of_node [of _ "ass ! ?j" h _ ?bj]
          show ?thesis by blast
        qed
      qed
      from other_j [OF j False pin] eq gl goal1 show ?thesis by simp
    next
      case True
      have ld: "load m h (Bucket i) = Some ?b" "load ?m' ?h' (Bucket i) = Some n1"
        "load m h (Node (next ?b)) = Some n1"
        using i(2) n1 by (simp_all add: load_def)
      have nn1: "key n1 \<noteq> NULL"
        using w(7) blk by auto
      from gl True ne hb p(2) have G: "map_get_loop m k' (Some (Node (next ?b))) h = Some (Inr p)"
        using nxt
        by (auto simp: map_get_loop_step [OF ld(1)] empty_slot_def split: sum.splits if_splits)
      have nd: "\<forall>a \<in> set rest. nodes ?h' a = nodes h a"
        using a1 by auto
      have kd: "\<forall>a \<in> set rest. \<forall>n. nodes h a = Some n \<longrightarrow> mem ?h' (key n) = mem h (key n)"
        using other_i as by auto
      have tl: "map_get_loop ?m' k' (node_ptr (next n1)) ?h' = map_get_loop m k' (node_ptr (next n1)) h"
        using map_get_loop_frame [OF ty mk ch1 nd kd] .
      have "mem ?h' (key n1) = mem h (key n1)"
        using other_i [of "next ?b" n1] as n1 by simp
      then have "call_cmp ?m' (key n1) k' ?h' = call_cmp m (key n1) k' h"
        using call_cmp_frame [OF ty _ mk] by blast
      with tl nn1 have eq: "map_get_loop ?m' k' (Some (Bucket i)) ?h' = map_get_loop m k' (Some (Node (next ?b))) h"
        by (simp add: map_get_loop_step [OF ld(2)] map_get_loop_step [OF ld(3)] split: sum.splits)
      have "chain (nodes h) (next ?b) (ass ! i)" by (rule w(1))
      from map_get_loop_value [OF this _ p(1), of m k'] G nxt
      obtain a n where an: "a \<in> set (ass ! i)" "nodes h a = Some n" "p = value n"
        by auto
      have "p \<noteq> key ?b \<and> p \<noteq> value ?b"
        using other_i [OF an(1,2)] an(3) by simp
      with eq G goal1 True show ?thesis by simp
    qed
  qed
  from n1 run look remove_head_well_formed [OF wf i(2) nxt n1, of kf vf] show ?thesis by blast
qed


lemma chained_well_formed: "well_formed chained_table chained_heap [[11, 14], []]"
  unfolding well_formed_def
proof (intro conjI)
  show "chains_of chained_table chained_heap [[11, 14], []]"
    by (rule chained_chains)
qed (simp_all add: blocks_of_def empty_slot_def chained_defs)

theorem remove_head_promotes_successor_witness:
  "reachable chained_table chained_heap \<and>
   well_formed chained_table chained_heap [[11, 14], []] \<and>
   map_get chained_table 2 chained_heap = Some (Inr 13) \<and>
   (\<exists>m' h'. map_remove chained_table 1 chained_heap = Some (Inr (0, m', h')) \<and>
      length_m m' = 3 \<and> buckets m' ! 0 = \<lparr>key = 12, value = 13, next = 14\<rparr> \<and>
      world h' = [(9, Some [8, 0, 0, 0]), (10, Some [80, 0, 0, 0])] \<and>
      mem h' 9 = None \<and> mem h' 10 = None \<and> nodes h' 11 = None \<and>
      map_get m' 2 h' = Some (Inr 13) \<and> mem h' 13 = Some [100, 0, 0, 0])"
proof -
  let ?kf = "\<lambda>p blk w. w @ [(p :: addr, blk :: bytes option)]"
  have kf: "key_free (type chained_table) = Some ?kf" "value_free (type chained_table) = Some ?kf"
    by (simp_all add: chained_defs)
  have hash: "call_hash chained_table 1 chained_heap = Inr 8"
    by (simp add: call_hash_def chained_defs)
  have i: "unat ((8 :: size_t) mod buckets_count chained_table) = 0" "0 < length (buckets chained_table)"
    by (simp_all add: chained_defs)
  have cmp: "call_cmp chained_table (key (buckets chained_table ! 0)) 1 chained_heap = Inr 0"
    by (simp add: call_cmp_def chained_defs)
  have nxt: "next (buckets chained_table ! 0) \<noteq> NULL"
    by (simp add: chained_defs)
  have get: "map_get chained_table 2 chained_heap = Some (Inr 13)"
    by (simp add: map_get_def call_hash_def call_cmp_def load_def node_ptr_def chained_defs
        map_get_loop.simps)
  from remove_head_promotes_successor [OF chained_well_formed kf hash i cmp nxt]
  obtain n1 where n1: "nodes chained_heap (next (buckets chained_table ! 0)) = Some n1"
    and run: "map_remove chained_table 1 chained_heap =
        Some (Inr (0, chained_table\<lparr>buckets := (buckets chained_table)[0 := n1],
                                   length_m := length_m chained_table - 1\<rparr>,
                   removed_head_heap ?kf ?kf (buckets chained_table ! 0) chained_heap))"
    and look: "\<And>k' p. k' \<noteq> key (buckets chained_table ! 0) \<Longrightarrow> k' \<noteq> value (buckets chained_table ! 0) \<Longrightarrow>
        map_get chained_table k' chained_heap = Some (Inr p) \<Longrightarrow> p \<noteq> NULL \<Longrightarrow>
        p \<noteq> value (buckets chained_table ! 0) \<Longrightarrow>
        map_get (chained_table\<lparr>buckets := (buckets chained_table)[0 := n1],
                                 length_m := length_m chained_table - 1\<rparr>) k'
          (removed_head_heap ?kf ?kf (buckets chained_table ! 0) chained_heap) = Some (Inr p) \<and>
        mem (removed_head_heap ?kf ?kf (buckets chained_table ! 0) chained_heap) p = mem chained_heap p"
    by blast
  have n1': "n1 = \<lparr>key = 12, value = 13, next = 14\<rparr>"
    using n1 by (simp add: chained_defs)
  have l: "map_get (chained_table\<lparr>buckets := (buckets chained_table)[0 := n1],
                                 length_m := length_m chained_table - 1\<rparr>) 2
          (removed_head_heap ?kf ?kf (buckets chained_table ! 0) chained_heap) = Some (Inr 13) \<and>
        mem (removed_head_heap ?kf ?kf (buckets chained_table ! 0) chained_heap) 13 = mem chained_heap 13"
    by (rule look [OF _ _ get]) (simp_all add: chained_defs)
  have "\<exists>m' h'. map_remove chained_table 1 chained_heap = Some (Inr (0, m', h')) \<and>
      length_m m' = 3 \<and> buckets m' ! 0 = \<lparr>key = 12, value = 13, next = 14\<rparr> \<and>
      world h' = [(9, Some [8, 0, 0, 0]), (10, Some [80, 0, 0, 0])] \<and>
      mem h' 9 = None \<and> mem h' 10 = None \<and> nodes h' 11 = None \<and>
      map_get m' 2 h' = Some (Inr 13) \<and> mem h' 13 = Some [100, 0, 0, 0]"
    using run l n1'
    by (simp add: removed_head_heap_def chained_defs)
  with chained_reachable chained_well_formed get show ?thesis
    by blast
qed

section \<open>Tables built through the interface are well-formed\<close>

text \<open>
  The hypotheses \<open>chains_of\<close> and \<open>well_formed\<close> used above hold for every table
  that is built by \<^verbatim>\<open>map_new\<close>, \<^verbatim>\<open>map_add\<close> and \<^verbatim>\<open>map_remove\<close> when the allocations
  succeed: each function keeps the chains ending in \<^verbatim>\<open>NULL\<close>, the overflow nodes
  pairwise different and the owned blocks live, non-null and pairwise different.
\<close>

lemma distinct_concat_nth_iff:
  "distinct (concat xss) \<longleftrightarrow>
     (\<forall>i < length xss. distinct (xss ! i)) \<and>
     (\<forall>i < length xss. \<forall>j < length xss. i \<noteq> j \<longrightarrow> set (xss ! i) \<inter> set (xss ! j) = {})"
proof (induction xss)
  case Nil
  then show ?case by simp
next
  case (Cons xs xss)
  have 1: "(set xs \<inter> \<Union> (set ` set xss) = {}) \<longleftrightarrow> (\<forall>j < length xss. set xs \<inter> set (xss ! j) = {})"
  proof -
    have "(set xs \<inter> \<Union> (set ` set xss) = {}) \<longleftrightarrow> (\<forall>ys \<in> set xss. set xs \<inter> set ys = {})"
      by blast
    then show ?thesis
      by (simp only: all_set_conv_all_nth)
  qed
  show ?case
    apply (simp add: Cons.IH 1 All_less_Suc2 del: all_simps)
    apply (auto simp: Int_commute)
    apply (meson disjoint_iff)
    done
qed

lemma chain_live: "chain ns p as \<Longrightarrow> a \<in> set as \<Longrightarrow> ns a \<noteq> None \<and> a \<noteq> NULL"
  by (induction as arbitrary: p) (auto split: option.splits)

lemma wf_intro:
  assumes "unat (buckets_count m) = length (buckets m)" and "length ass = length (buckets m)"
    and "\<And>j. j < length (buckets m) \<Longrightarrow>
           chain (nodes h) (next (buckets m ! j)) (ass ! j) \<and> (empty_slot (buckets m ! j) \<longrightarrow> ass ! j = []) \<and>
           distinct (ass ! j) \<and> distinct (blocks_of h (buckets m ! j) (ass ! j)) \<and>
           (\<forall>p \<in> set (blocks_of h (buckets m ! j) (ass ! j)). p \<noteq> NULL \<and> mem h p \<noteq> None)"
    and "\<And>j k. j < length (buckets m) \<Longrightarrow> k < length (buckets m) \<Longrightarrow> j \<noteq> k \<Longrightarrow>
           set (ass ! j) \<inter> set (ass ! k) = {} \<and>
           set (blocks_of h (buckets m ! j) (ass ! j)) \<inter> set (blocks_of h (buckets m ! k) (ass ! k)) = {}"
  shows "well_formed m h ass"
proof -
  let ?B = "map2 (blocks_of h) (buckets m) ass"
  have lB: "length ?B = length (buckets m)"
    using assms(2) by simp
  have nth: "?B ! j = blocks_of h (buckets m ! j) (ass ! j)" if "j < length (buckets m)" for j
    using that assms(2) by simp
  have "chains_of m h ass"
    unfolding chains_of_def list_all2_conv_all_nth
    using assms(1,2,3) by simp
  moreover have "distinct (concat ass)"
    unfolding distinct_concat_nth_iff
    using assms(2,3,4) by simp
  moreover have "distinct (concat ?B)"
    unfolding distinct_concat_nth_iff
    using assms(3,4) nth lB by simp
  moreover have "p \<noteq> NULL \<and> mem h p \<noteq> None" if "p \<in> set (concat ?B)" for p
  proof -
    from in_concat_nth [OF that] obtain j where "j < length (buckets m)" "p \<in> set (?B ! j)"
      using lB by auto
    with nth [of j] assms(3) [of j] show ?thesis by simp
  qed
  ultimately show ?thesis
    unfolding well_formed_def by blast
qed

lemma wf_update:
  assumes wf: "well_formed m h ass" and i: "i < length (buckets m)"
    and bs: "buckets m' = (buckets m)[i := b']" and bc: "buckets_count m' = buckets_count m"
    and fr: "\<And>j a. j < length (buckets m) \<Longrightarrow> j \<noteq> i \<Longrightarrow> a \<in> set (ass ! j) \<Longrightarrow> nodes h' a = nodes h a"
    and lv: "\<And>j p. j < length (buckets m) \<Longrightarrow> j \<noteq> i \<Longrightarrow>
               p \<in> set (blocks_of h (buckets m ! j) (ass ! j)) \<Longrightarrow> mem h' p \<noteq> None"
    and ch: "chain (nodes h') (next b') as'" "empty_slot b' \<longrightarrow> as' = []" "distinct as'"
    and bl: "distinct (blocks_of h' b' as')" "\<forall>p \<in> set (blocks_of h' b' as'). p \<noteq> NULL \<and> mem h' p \<noteq> None"
    and dj: "\<And>j. j < length (buckets m) \<Longrightarrow> j \<noteq> i \<Longrightarrow>
               set as' \<inter> set (ass ! j) = {} \<and>
               set (blocks_of h' b' as') \<inter> set (blocks_of h (buckets m ! j) (ass ! j)) = {}"
  shows "well_formed m' h' (ass[i := as'])"
proof (rule wf_intro)
  note w = wf_nth [OF wf i]
  show "unat (buckets_count m') = length (buckets m')"
    using w(4) bs bc by simp
  show "length (ass[i := as']) = length (buckets m')"
    using w(3) bs by simp
  have same: "blocks_of h' (buckets m ! j) (ass ! j) = blocks_of h (buckets m ! j) (ass ! j)"
    if "j < length (buckets m)" "j \<noteq> i" for j
    using blocks_of_frame [of "ass ! j" h' h] fr [OF that] by simp
  show "chain (nodes h') (next (buckets m' ! j)) (ass[i := as'] ! j) \<and>
        (empty_slot (buckets m' ! j) \<longrightarrow> ass[i := as'] ! j = []) \<and>
        distinct (ass[i := as'] ! j) \<and> distinct (blocks_of h' (buckets m' ! j) (ass[i := as'] ! j)) \<and>
        (\<forall>p \<in> set (blocks_of h' (buckets m' ! j) (ass[i := as'] ! j)). p \<noteq> NULL \<and> mem h' p \<noteq> None)"
    if "j < length (buckets m')" for j
  proof (cases "j = i")
    case True
    with i w(3) bs ch bl show ?thesis by simp
  next
    case False
    from that bs have j: "j < length (buckets m)" by simp
    note wj = wf_nth [OF wf j]
    have "chain (nodes h') (next (buckets m ! j)) (ass ! j)"
      using chain_frame [OF wj(1), of "nodes h'"] fr [OF j False] by simp
    moreover have "\<forall>p \<in> set (blocks_of h (buckets m ! j) (ass ! j)). p \<noteq> NULL \<and> mem h' p \<noteq> None"
      using wj(7) lv [OF j False] by simp
    ultimately show ?thesis
      using False bs wj(2,5,6) same [OF j False] by simp
  qed
  show "set (ass[i := as'] ! j) \<inter> set (ass[i := as'] ! k) = {} \<and>
        set (blocks_of h' (buckets m' ! j) (ass[i := as'] ! j)) \<inter>
        set (blocks_of h' (buckets m' ! k) (ass[i := as'] ! k)) = {}"
    if jl: "j < length (buckets m')" and kl: "k < length (buckets m')" and jk: "j \<noteq> k" for j k
  proof -
    from jl kl bs have j: "j < length (buckets m)" and k: "k < length (buckets m)" by simp_all
    consider "j = i" "k \<noteq> i" | "k = i" "j \<noteq> i" | "j \<noteq> i" "k \<noteq> i"
      using jk by blast
    then show ?thesis
    proof cases
      case 1
      with dj [OF k 1(2)] same [OF k 1(2)] i w(3) bs show ?thesis by simp
    next
      case 2
      with dj [OF j 2(2)] same [OF j 2(2)] i w(3) bs show ?thesis by (simp add: Int_commute)
    next
      case 3
      with wf_disjoint [OF wf j k jk] same [OF j 3(1)] same [OF k 3(2)] bs show ?thesis by simp
    qed
  qed
qed


lemma same_shape_refl: "same_shape h h"
  by (simp add: same_shape_def)

lemma same_shape_trans: "same_shape h h1 \<Longrightarrow> same_shape h1 h2 \<Longrightarrow> same_shape h h2"
  by (simp add: same_shape_def)

lemma memcpy_shape: "memcpy d s n h = Inr h' \<Longrightarrow> same_shape h h'"
  by (auto simp: memcpy_def same_shape_def split: option.splits if_splits)

lemma call_free_shape: "call_free f p h = Inr h' \<Longrightarrow> same_shape h h'"
  by (auto simp: call_free_def same_shape_def split: option.splits)

lemma blocks_of_nodes: "nodes h' = nodes h \<Longrightarrow> blocks_of h' = blocks_of h"
  by (simp add: blocks_of_def fun_eq_iff)

lemma wf_mono:
  assumes "well_formed m h ass" and "nodes h' = nodes h" and "\<And>p. mem h p \<noteq> None \<Longrightarrow> mem h' p \<noteq> None"
  shows "well_formed m h' ass"
  using assms(1,3) unfolding well_formed_def chains_of_def blocks_of_nodes [OF assms(2)] assms(2)
  by blast

lemma table_inv_shape: "table_inv m h \<Longrightarrow> same_shape h h' \<Longrightarrow> table_inv m h'"
  unfolding table_inv_def
proof (intro conjI)
  assume a: "(\<exists>ass. well_formed m h ass) \<and> heap_below h \<and> outcomes h = []" and s: "same_shape h h'"
  from a obtain ass where "well_formed m h ass" by blast
  then have "well_formed m h' ass"
    using s by (intro wf_mono [of m h ass h']) (simp_all add: same_shape_def)
  then show "\<exists>ass. well_formed m h' ass" ..
  show "heap_below h'" using a s by (simp add: heap_below_def same_shape_def)
  show "outcomes h' = []" using a s by (simp add: same_shape_def)
qed

lemma map_add_update_shape:
  "map_add_update m v n h = Inr (rc, m', h') \<Longrightarrow> m' = m \<and> same_shape h h'"
  by (auto simp: map_add_update_def split: sum.splits dest!: call_free_shape memcpy_shape
      intro: same_shape_trans)

lemma heap_below_fresh: "heap_below h \<Longrightarrow> brk h < p \<Longrightarrow> mem h p = None \<and> nodes h p = None"
  by (force simp: heap_below_def)

lemma map_add_first_effect:
  assumes "outcomes h = []" and "map_add_first m i b k v h = Inr (rc, m', h')"
  shows "buckets m' = (buckets m)[i := b\<lparr>key := Suc (brk h), value := Suc (Suc (brk h))\<rparr>] \<and>
         buckets_count m' = buckets_count m \<and> nodes h' = nodes h \<and> brk h' = Suc (Suc (brk h)) \<and>
         outcomes h' = [] \<and>
         (\<forall>p. mem h' p \<noteq> None \<longleftrightarrow> mem h p \<noteq> None \<or> p = Suc (brk h) \<or> p = Suc (Suc (brk h)))"
  using assms
  by (auto simp: map_add_first_def malloc_def alloc_ok_def memcpy_def Let_def
      split: sum.splits option.splits if_splits)

lemma map_add_first_wf:
  assumes wf: "well_formed m h ass" and hb: "heap_below h" and os: "outcomes h = []"
    and i: "i < length (buckets m)" and e: "empty_slot (buckets m ! i)"
    and run: "map_add_first m i (buckets m ! i) k v h = Inr (rc, m', h')"
  shows "table_inv m' h'"
proof -
  let ?b = "buckets m ! i"
  let ?b' = "?b\<lparr>key := Suc (brk h), value := Suc (Suc (brk h))\<rparr>"
  note eff = map_add_first_effect [OF os run]
  note w = wf_nth [OF wf i]
  from e w(1,2) have nx: "next ?b = NULL" by simp
  have ne: "\<not> empty_slot ?b'" by (simp add: empty_slot_def)
  have bl: "blocks_of h' ?b' [] = [Suc (brk h), Suc (Suc (brk h))]"
    using ne by (simp add: blocks_of_def)
  have "well_formed m' h' (ass[i := []])"
  proof (rule wf_update [OF wf i])
    show "buckets m' = (buckets m)[i := ?b']" using eff by simp
    show "buckets_count m' = buckets_count m" using eff by simp
    show "chain (nodes h') (next ?b') []" using nx by simp
    show "empty_slot ?b' \<longrightarrow> [] = []" by simp
    show "distinct ([] :: addr list)" by simp
    show "distinct (blocks_of h' ?b' [])" using bl by simp
    show "\<forall>p \<in> set (blocks_of h' ?b' []). p \<noteq> NULL \<and> mem h' p \<noteq> None"
      using bl eff by simp
  next
    fix j a
    show "nodes h' a = nodes h a" using eff by simp
  next
    fix j p
    assume j: "j < length (buckets m)" and "p \<in> set (blocks_of h (buckets m ! j) (ass ! j))"
    with wf_nth(7) [OF wf j] eff show "mem h' p \<noteq> None" by simp
  next
    fix j
    assume j: "j < length (buckets m)"
    have "p \<le> brk h" if "p \<in> set (blocks_of h (buckets m ! j) (ass ! j))" for p
      using wf_nth(7) [OF wf j] that hb by (simp add: heap_below_def)
    then show "set [] \<inter> set (ass ! j) = {} \<and>
        set (blocks_of h' ?b' []) \<inter> set (blocks_of h (buckets m ! j) (ass ! j)) = {}"
      using bl by fastforce
  qed
  moreover have "heap_below h'"
    using hb eff by (auto simp: heap_below_def le_Suc_eq)
  ultimately show ?thesis
    using eff unfolding table_inv_def by blast
qed

lemma chain_append_last:
  "chain ns p (pre @ suf) \<Longrightarrow> pre \<noteq> [] \<Longrightarrow> \<exists>n. ns (last pre) = Some n \<and> chain ns (next n) suf"
proof (induction pre arbitrary: p)
  case Nil
  then show ?case by simp
next
  case (Cons a pre)
  then show ?case
    by (cases "pre = []") (auto split: option.splits)
qed

lemma chain_snoc:
  "chain ns p xs \<Longrightarrow> xs \<noteq> [] \<Longrightarrow> ns (last xs) = Some n \<Longrightarrow> distinct xs \<Longrightarrow> a \<notin> set xs \<Longrightarrow>
   a \<noteq> NULL \<Longrightarrow> next new = NULL \<Longrightarrow>
   chain (ns(a \<mapsto> new, last xs \<mapsto> n\<lparr>next := a\<rparr>)) p (xs @ [a])"
proof (induction xs arbitrary: p)
  case Nil
  then show ?case by simp
next
  case (Cons x xs)
  show ?case
  proof (cases "xs = []")
    case True
    with Cons.prems show ?thesis by (auto split: option.splits)
  next
    case False
    from Cons.prems obtain nx where nx: "p = x" "x \<noteq> NULL" "ns x = Some nx" "chain ns (next nx) xs"
      by (auto split: option.splits)
    have "chain (ns(a \<mapsto> new, last xs \<mapsto> n\<lparr>next := a\<rparr>)) (next nx) (xs @ [a])"
    proof (rule Cons.IH [OF nx(4) False])
      show "ns (last xs) = Some n" using Cons.prems(3) False by simp
      show "distinct xs" "a \<notin> set xs" using Cons.prems by simp_all
      show "a \<noteq> NULL" "next new = NULL" using Cons.prems by simp_all
    qed
    moreover have "(ns(a \<mapsto> new, last xs \<mapsto> n\<lparr>next := a\<rparr>)) x = Some nx"
      using Cons.prems False nx by auto
    ultimately show ?thesis
      using nx False by (simp del: fun_upd_apply)
  qed
qed

lemma chain_unlink:
  "chain ns p (pre @ a # suf) \<Longrightarrow> pre \<noteq> [] \<Longrightarrow> distinct (pre @ a # suf) \<Longrightarrow>
   ns (last pre) = Some pn \<Longrightarrow> ns a = Some n \<Longrightarrow>
   chain (ns(last pre \<mapsto> pn\<lparr>next := next n\<rparr>, a := None)) p (pre @ suf)"
proof (induction pre arbitrary: p)
  case Nil
  then show ?case by simp
next
  case (Cons x pre)
  from Cons.prems obtain nx where nx: "p = x" "x \<noteq> NULL" "ns x = Some nx" "chain ns (next nx) (pre @ a # suf)"
    by (auto split: option.splits)
  show ?case
  proof (cases "pre = []")
    case True
    with nx Cons.prems have c: "chain ns (next n) suf" and f: "pn = nx" "x \<noteq> a" "x \<notin> set suf" "a \<notin> set suf"
      by (auto split: option.splits)
    have "chain (ns(x \<mapsto> pn\<lparr>next := next n\<rparr>, a := None)) (next n) suf"
      using f by (intro chain_frame [OF c]) auto
    moreover have "(ns(x \<mapsto> pn\<lparr>next := next n\<rparr>, a := None)) x = Some (pn\<lparr>next := next n\<rparr>)"
      using \<open>x \<noteq> a\<close> by simp
    ultimately show ?thesis
      using True nx by (simp del: fun_upd_apply)
  next
    case False
    have "chain (ns(last pre \<mapsto> pn\<lparr>next := next n\<rparr>, a := None)) (next nx) (pre @ suf)"
    proof (rule Cons.IH [OF nx(4) False])
      show "distinct (pre @ a # suf)" using Cons.prems by simp
      show "ns (last pre) = Some pn" using Cons.prems(4) False by simp
      show "ns a = Some n" using Cons.prems by simp
    qed
    moreover have "(ns(last pre \<mapsto> pn\<lparr>next := next n\<rparr>, a := None)) x = Some nx"
      using Cons.prems False nx by auto
    ultimately show ?thesis
      using nx False by (simp del: fun_upd_apply)
  qed
qed

lemma blocks_of_cong:
  "\<forall>a \<in> set as. (case nodes h' a of None \<Rightarrow> [] | Some n \<Rightarrow> [key n, value n]) =
                 (case nodes h a of None \<Rightarrow> [] | Some n \<Rightarrow> [key n, value n]) \<Longrightarrow>
   blocks_of h' b as = blocks_of h b as"
  by (simp add: blocks_of_def cong: map_cong)

lemma blocks_of_append:
  "blocks_of h b (xs @ ys) =
     blocks_of h b xs @ concat (map (\<lambda>a. case nodes h a of None \<Rightarrow> [] | Some n \<Rightarrow> [key n, value n]) ys)"
  by (simp add: blocks_of_def)

lemma blocks_of_next [simp]: "blocks_of h (b\<lparr>next := q\<rparr>) as = blocks_of h b as"
  by (simp add: blocks_of_def empty_slot_def)

lemma malloc_empty:
  "outcomes h = [] \<Longrightarrow>
   malloc n h = (Suc (brk h), h\<lparr>mem := (mem h)(Suc (brk h) \<mapsto> replicate n 0), brk := Suc (brk h)\<rparr>)"
  by (simp add: malloc_def alloc_ok_empty)

lemma malloc_node_empty:
  "outcomes h = [] \<Longrightarrow>
   malloc_node h = (Suc (brk h),
      h\<lparr>nodes := (nodes h)(Suc (brk h) \<mapsto> \<lparr>key = NULL, value = NULL, next = NULL\<rparr>), brk := Suc (brk h)\<rparr>)"
  by (simp add: malloc_node_def alloc_ok_empty)

lemma map_add_append_effect:
  assumes os: "outcomes h = []" and run: "map_add_append m k v r h = Inr (rc, m', h')"
    and ld: "load m h r = Some n" and r: "r \<noteq> Node (Suc (brk h))"
  shows "brk h' = Suc (Suc (Suc (brk h))) \<and> outcomes h' = [] \<and> buckets_count m' = buckets_count m \<and>
         (\<forall>p. mem h' p \<noteq> None \<longleftrightarrow> mem h p \<noteq> None \<or> p = Suc (Suc (brk h)) \<or> p = Suc (Suc (Suc (brk h)))) \<and>
         (case r of
            Bucket i \<Rightarrow>
              buckets m' = (buckets m)[i := n\<lparr>next := Suc (brk h)\<rparr>] \<and>
              nodes h' = (nodes h)(Suc (brk h) \<mapsto>
                 \<lparr>key = Suc (Suc (brk h)), value = Suc (Suc (Suc (brk h))), next = NULL\<rparr>)
          | Node a \<Rightarrow>
              buckets m' = buckets m \<and>
              nodes h' = (nodes h)(Suc (brk h) \<mapsto>
                 \<lparr>key = Suc (Suc (brk h)), value = Suc (Suc (Suc (brk h))), next = NULL\<rparr>,
                 a \<mapsto> n\<lparr>next := Suc (brk h)\<rparr>))"
proof -
  let ?nn = "Suc (brk h)" and ?kp = "Suc (Suc (brk h))" and ?vp = "Suc (Suc (Suc (brk h)))"
  let ?ks = "unat (key_size (type m))" and ?vs = "unat (value_size (type m))"
  define h1 where "h1 = h\<lparr>nodes := (nodes h)(?nn \<mapsto> \<lparr>key = NULL, value = NULL, next = NULL\<rparr>), brk := ?nn\<rparr>"
  define h2 where "h2 = h1\<lparr>mem := (mem h1)(?kp \<mapsto> replicate ?ks 0), brk := ?kp\<rparr>"
  define h3 where "h3 = h2\<lparr>mem := (mem h2)(?vp \<mapsto> replicate ?vs 0), brk := ?vp\<rparr>"
  have m1: "malloc_node h = (?nn, h1)"
    using malloc_node_empty [OF os] by (simp add: h1_def)
  have m2: "malloc ?ks h1 = (?kp, h2)"
    using malloc_empty [of h1 ?ks] os by (simp add: h1_def h2_def)
  have m3: "malloc ?vs h2 = (?vp, h3)"
    using malloc_empty [of h2 ?vs] os by (simp add: h1_def h2_def h3_def)
  from run obtain h4 h5 where c1: "memcpy ?kp k ?ks h3 = Inr h4" and c2: "memcpy ?vp v ?vs h4 = Inr h5"
    and res: "(case load m (h5\<lparr>nodes := (nodes h5)(?nn \<mapsto> \<lparr>key = ?kp, value = ?vp, next = NULL\<rparr>)\<rparr>) r of
                 None \<Rightarrow> Inl BadRead
               | Some n \<Rightarrow>
                   let (m1, h7) = store r (n\<lparr>next := ?nn\<rparr>)
                         (m, h5\<lparr>nodes := (nodes h5)(?nn \<mapsto> \<lparr>key = ?kp, value = ?vp, next = NULL\<rparr>)\<rparr>)
                   in Inr (0, m1\<lparr>length_m := length_m m1 + 1\<rparr>, h7)) = Inr (rc, m', h')"
    by (simp add: map_add_append_def m1 m2 m3 Let_def split: sum.splits)
  have s: "same_shape h3 h5"
    using same_shape_trans [OF memcpy_shape [OF c1] memcpy_shape [OF c2]] .
  have h5: "nodes h5 = (nodes h)(?nn \<mapsto> \<lparr>key = NULL, value = NULL, next = NULL\<rparr>)" "brk h5 = ?vp"
    "outcomes h5 = []" "\<And>p. mem h5 p \<noteq> None \<longleftrightarrow> mem h p \<noteq> None \<or> p = ?kp \<or> p = ?vp"
    using s os by (simp_all add: same_shape_def h1_def h2_def h3_def)
  have rest: "mem h' = mem h5 \<and> brk h' = brk h5 \<and> outcomes h' = outcomes h5 \<and>
      buckets_count m' = buckets_count m"
    using res by (cases r) (auto simp: load_def store_def split: if_splits option.splits)
  have shape: "case r of
            Bucket i \<Rightarrow>
              buckets m' = (buckets m)[i := n\<lparr>next := Suc (brk h)\<rparr>] \<and>
              nodes h' = (nodes h)(Suc (brk h) \<mapsto>
                 \<lparr>key = Suc (Suc (brk h)), value = Suc (Suc (Suc (brk h))), next = NULL\<rparr>)
          | Node a \<Rightarrow>
              buckets m' = buckets m \<and>
              nodes h' = (nodes h)(Suc (brk h) \<mapsto>
                 \<lparr>key = Suc (Suc (brk h)), value = Suc (Suc (Suc (brk h))), next = NULL\<rparr>,
                 a \<mapsto> n\<lparr>next := Suc (brk h)\<rparr>)"
  proof (cases r)
    case (Bucket i)
    with ld res h5(1) show ?thesis
      by (auto simp: load_def store_def split: if_splits)
  next
    case (Node a)
    with r have "a \<noteq> ?nn" by simp
    with Node ld res h5(1) show ?thesis
      by (auto simp: load_def store_def)
  qed
  from rest h5 shape show ?thesis
    by simp
qed

lemma wf_below:
  assumes wf: "well_formed m h ass" and hb: "heap_below h" and j: "j < length (buckets m)"
  shows "a \<in> set (ass ! j) \<Longrightarrow> a \<le> brk h \<and> a \<noteq> NULL \<and> nodes h a \<noteq> None"
    and "p \<in> set (blocks_of h (buckets m ! j) (ass ! j)) \<Longrightarrow> p \<le> brk h \<and> p \<noteq> NULL \<and> mem h p \<noteq> None"
proof -
  note w = wf_nth [OF wf j]
  show "a \<le> brk h \<and> a \<noteq> NULL \<and> nodes h a \<noteq> None" if "a \<in> set (ass ! j)"
    using chain_live [OF w(1) that] hb by (simp add: heap_below_def)
  show "p \<le> brk h \<and> p \<noteq> NULL \<and> mem h p \<noteq> None" if "p \<in> set (blocks_of h (buckets m ! j) (ass ! j))"
    using w(7) that hb by (simp add: heap_below_def)
qed

lemma map_add_append_wf:
  assumes wf: "well_formed m h ass" and hb: "heap_below h" and os: "outcomes h = []"
    and i: "i < length (buckets m)" and ne: "\<not> empty_slot (buckets m ! i)"
    and pos: "(r = Bucket i \<and> ass ! i = []) \<or> (ass ! i \<noteq> [] \<and> r = Node (last (ass ! i)))"
    and run: "map_add_append m k v r h = Inr (rc, m', h')"
  shows "table_inv m' h'"
proof -
  let ?b = "buckets m ! i"
  let ?nn = "Suc (brk h)" and ?kp = "Suc (Suc (brk h))" and ?vp = "Suc (Suc (Suc (brk h)))"
  let ?new = "\<lparr>key = ?kp, value = ?vp, next = NULL\<rparr>"
  note w = wf_nth [OF wf i]
  note below = wf_below [OF wf hb]
  have hd: "blocks_of h ?b [] = [key ?b, value ?b]"
    using ne by (simp add: blocks_of_def)
  from pos have "\<exists>ass'. well_formed m' h' ass' \<and> brk h' = ?vp \<and> outcomes h' = [] \<and>
      (\<forall>a. nodes h' a \<noteq> None \<longrightarrow> nodes h a \<noteq> None \<or> a = ?nn) \<and>
      (\<forall>p. mem h' p \<noteq> None \<longleftrightarrow> mem h p \<noteq> None \<or> p = ?kp \<or> p = ?vp)"
  proof
    assume p: "r = Bucket i \<and> ass ! i = []"
    then have ld: "load m h r = Some ?b"
      using i by (simp add: load_def)
    from map_add_append_effect [OF os run ld] p have
      eff: "brk h' = ?vp" "outcomes h' = []" "buckets_count m' = buckets_count m"
        "\<And>p. mem h' p \<noteq> None \<longleftrightarrow> mem h p \<noteq> None \<or> p = ?kp \<or> p = ?vp"
        "buckets m' = (buckets m)[i := ?b\<lparr>next := ?nn\<rparr>]"
        "nodes h' = (nodes h)(?nn \<mapsto> ?new)"
      by simp_all
    have bl: "blocks_of h' (?b\<lparr>next := ?nn\<rparr>) [?nn] = [key ?b, value ?b, ?kp, ?vp]"
      using ne eff(6) by (simp add: blocks_of_def empty_slot_def)
    have old: "key ?b \<le> brk h \<and> key ?b \<noteq> NULL \<and> mem h (key ?b) \<noteq> None"
        "value ?b \<le> brk h \<and> value ?b \<noteq> NULL \<and> mem h (value ?b) \<noteq> None" "key ?b \<noteq> value ?b"
      using below(2) [OF i, of "key ?b"] below(2) [OF i, of "value ?b"] w(6) p hd by simp_all
    have "well_formed m' h' (ass[i := [?nn]])"
    proof (rule wf_update [OF wf i eff(5) eff(3)])
      show "chain (nodes h') (next (?b\<lparr>next := ?nn\<rparr>)) [?nn]"
        using eff(6) by simp
      show "empty_slot (?b\<lparr>next := ?nn\<rparr>) \<longrightarrow> [?nn] = []"
        using ne by (simp add: empty_slot_def)
      show "distinct [?nn]" by simp
      show "distinct (blocks_of h' (?b\<lparr>next := ?nn\<rparr>) [?nn])"
        using bl old by auto
      show "\<forall>p \<in> set (blocks_of h' (?b\<lparr>next := ?nn\<rparr>) [?nn]). p \<noteq> NULL \<and> mem h' p \<noteq> None"
        using bl old eff(4) by simp
    next
      fix j a
      assume "j < length (buckets m)" "a \<in> set (ass ! j)"
      from below(1) [OF this] eff(6) show "nodes h' a = nodes h a" by auto
    next
      fix j p
      assume "j < length (buckets m)" "p \<in> set (blocks_of h (buckets m ! j) (ass ! j))"
      from below(2) [OF this] eff(4) show "mem h' p \<noteq> None" by simp
    next
      fix j
      assume j: "j < length (buckets m)" "j \<noteq> i"
      have "?nn \<notin> set (ass ! j)"
        using below(1) [OF j(1), of ?nn] by auto
      moreover have "q \<notin> set (blocks_of h (buckets m ! j) (ass ! j))"
        if "q \<in> set (blocks_of h' (?b\<lparr>next := ?nn\<rparr>) [?nn])" for q
      proof -
        from that bl consider "q = key ?b \<or> q = value ?b" | "brk h < q" by auto
        then show ?thesis
        proof cases
          case 1
          with wf_disjoint(2) [OF wf i j(1) j(2) [symmetric]] p hd show ?thesis by auto
        next
          case 2
          with below(2) [OF j(1), of q] show ?thesis by auto
        qed
      qed
      ultimately show "set [?nn] \<inter> set (ass ! j) = {} \<and>
          set (blocks_of h' (?b\<lparr>next := ?nn\<rparr>) [?nn]) \<inter> set (blocks_of h (buckets m ! j) (ass ! j)) = {}"
        by auto
    qed
    with eff show ?thesis by auto
  next
    assume p: "ass ! i \<noteq> [] \<and> r = Node (last (ass ! i))"
    let ?a = "last (ass ! i)"
    from p have ain: "?a \<in> set (ass ! i)" by simp
    from below(1) [OF i ain] obtain n where n: "nodes h ?a = Some n" and al: "?a \<le> brk h"
      by auto
    have ld: "load m h r = Some n" and rn: "r \<noteq> Node ?nn"
      using p n al by (auto simp: load_def)
    from map_add_append_effect [OF os run ld rn] p have
      eff: "brk h' = ?vp" "outcomes h' = []" "buckets_count m' = buckets_count m"
        "\<And>p. mem h' p \<noteq> None \<longleftrightarrow> mem h p \<noteq> None \<or> p = ?kp \<or> p = ?vp"
        "buckets m' = buckets m"
        "nodes h' = (nodes h)(?nn \<mapsto> ?new, ?a \<mapsto> n\<lparr>next := ?nn\<rparr>)"
      by simp_all
    have nn: "?nn \<notin> set (ass ! i)"
      using below(1) [OF i, of ?nn] by auto
    have "blocks_of h' ?b (ass ! i) = blocks_of h ?b (ass ! i)"
    proof (rule blocks_of_cong, rule ballI)
      fix a assume "a \<in> set (ass ! i)"
      with nn have "a \<noteq> ?nn" by auto
      then show "(case nodes h' a of None \<Rightarrow> [] | Some n \<Rightarrow> [key n, value n]) =
                 (case nodes h a of None \<Rightarrow> [] | Some n \<Rightarrow> [key n, value n])"
        using eff(6) n by (cases "a = ?a") simp_all
    qed
    moreover have "nodes h' ?nn = Some ?new"
      using eff(6) al by simp
    ultimately have bl: "blocks_of h' ?b (ass ! i @ [?nn]) = blocks_of h ?b (ass ! i) @ [?kp, ?vp]"
      by (simp add: blocks_of_append)
    have "well_formed m' h' (ass[i := ass ! i @ [?nn]])"
    proof (rule wf_update [OF wf i _ eff(3)])
      show "buckets m' = (buckets m)[i := ?b]"
        using eff(5) by simp
      show "chain (nodes h') (next ?b) (ass ! i @ [?nn])"
        unfolding eff(6) using w(1) p n w(5) nn by (intro chain_snoc) simp_all
      show "empty_slot ?b \<longrightarrow> ass ! i @ [?nn] = []"
        using ne by simp
      show "distinct (ass ! i @ [?nn])"
        using w(5) nn by simp
      show "distinct (blocks_of h' ?b (ass ! i @ [?nn]))"
        using bl w(6) below(2) [OF i, of ?kp] below(2) [OF i, of ?vp] by auto
      show "\<forall>p \<in> set (blocks_of h' ?b (ass ! i @ [?nn])). p \<noteq> NULL \<and> mem h' p \<noteq> None"
        using bl w(7) eff(4) by auto
    next
      fix j a
      assume j: "j < length (buckets m)" "j \<noteq> i" and a: "a \<in> set (ass ! j)"
      have "a \<noteq> ?a"
        using wf_disjoint(1) [OF wf i j(1) j(2) [symmetric]] ain a by auto
      with below(1) [OF j(1) a] eff(6) show "nodes h' a = nodes h a" by auto
    next
      fix j p
      assume "j < length (buckets m)" "p \<in> set (blocks_of h (buckets m ! j) (ass ! j))"
      from below(2) [OF this] eff(4) show "mem h' p \<noteq> None" by simp
    next
      fix j
      assume j: "j < length (buckets m)" "j \<noteq> i"
      have "?nn \<notin> set (ass ! j)"
        using below(1) [OF j(1), of ?nn] by auto
      moreover have "?kp \<notin> set (blocks_of h (buckets m ! j) (ass ! j))"
          "?vp \<notin> set (blocks_of h (buckets m ! j) (ass ! j))"
        using below(2) [OF j(1), of ?kp] below(2) [OF j(1), of ?vp] by auto
      ultimately show "set (ass ! i @ [?nn]) \<inter> set (ass ! j) = {} \<and>
          set (blocks_of h' ?b (ass ! i @ [?nn])) \<inter> set (blocks_of h (buckets m ! j) (ass ! j)) = {}"
        using wf_disjoint [OF wf i j(1) j(2) [symmetric]] bl by auto
    qed
    with eff n show ?thesis by auto
  qed
  then obtain ass' where r: "well_formed m' h' ass'" "brk h' = ?vp" "outcomes h' = []"
      "\<forall>a. nodes h' a \<noteq> None \<longrightarrow> nodes h a \<noteq> None \<or> a = ?nn"
      "\<forall>p. mem h' p \<noteq> None \<longleftrightarrow> mem h p \<noteq> None \<or> p = ?kp \<or> p = ?vp"
    by blast
  have "heap_below h'"
    unfolding heap_below_def
  proof (intro conjI allI impI)
    fix a assume "nodes h' a \<noteq> None"
    with r(4) have "nodes h a \<noteq> None \<or> a = ?nn" by blast
    with hb r(2) show "a \<le> brk h'" by (auto simp: heap_below_def le_Suc_eq)
  next
    fix p assume "mem h' p \<noteq> None"
    with r(5) have "mem h p \<noteq> None \<or> p = ?kp \<or> p = ?vp" by blast
    with hb r(2) show "p \<le> brk h'" by (auto simp: heap_below_def le_Suc_eq)
  qed
  with r(1,3) show ?thesis
    unfolding table_inv_def by blast
qed

lemma pos_chain:
  assumes wf: "well_formed m h ass" and i: "i < length (buckets m)" and sp: "ass ! i = pre @ suf"
    and pos: "(r = Bucket i \<and> pre = []) \<or> (pre \<noteq> [] \<and> r = Node (last pre))"
  shows "\<exists>n. load m h r = Some n \<and> chain (nodes h) (next n) suf"
  using pos
proof
  assume "r = Bucket i \<and> pre = []"
  with wf_nth(1) [OF wf i] sp i show ?thesis
    by (simp add: load_def)
next
  assume p: "pre \<noteq> [] \<and> r = Node (last pre)"
  with chain_append_last [of "nodes h" "next (buckets m ! i)" pre suf] wf_nth(1) [OF wf i] sp
  show ?thesis
    by (simp add: load_def)
qed

lemma map_add_loop_wf_aux:
  assumes "map_add_loop m k v r h = Some y"
  shows "\<forall>rc m' h' ass i pre suf. y = Inr (rc, m', h') \<longrightarrow> well_formed m h ass \<longrightarrow> heap_below h \<longrightarrow>
           outcomes h = [] \<longrightarrow> i < length (buckets m) \<longrightarrow> \<not> empty_slot (buckets m ! i) \<longrightarrow>
           ass ! i = pre @ suf \<longrightarrow> ((r = Bucket i \<and> pre = []) \<or> (pre \<noteq> [] \<and> r = Node (last pre))) \<longrightarrow>
           table_inv m' h'"
proof (induct m k v r h y rule: map_add_loop.raw_induct)
  case (1 loop m k v r h y)
  show ?case
  proof (intro allI impI)
    fix rc m' h' ass i pre suf
    assume y: "y = Inr (rc, m', h')" and wf: "well_formed m h ass" and hb: "heap_below h"
      and os: "outcomes h = []" and i: "i < length (buckets m)" and ne: "\<not> empty_slot (buckets m ! i)"
      and sp: "ass ! i = pre @ suf"
      and pos: "(r = Bucket i \<and> pre = []) \<or> (pre \<noteq> [] \<and> r = Node (last pre))"
    from pos_chain [OF wf i sp pos] obtain n where
      n: "load m h r = Some n" and ch: "chain (nodes h) (next n) suf"
      by blast
    have inv: "table_inv m h"
      using wf hb os unfolding table_inv_def by blast
    show "table_inv m' h'"
    proof (cases "next n = NULL")
      case True
      with ch have "suf = []" by (simp add: chain_NULL)
      with sp pos have pos': "(r = Bucket i \<and> ass ! i = []) \<or> (ass ! i \<noteq> [] \<and> r = Node (last (ass ! i)))"
        by auto
      from 1(2) n True y have "map_add_append m k v r h = Inr (rc, m', h')"
        by simp
      from map_add_append_wf [OF wf hb os i ne pos' this] show ?thesis .
    next
      case False
      from chain_nonnull [OF False ch] obtain suf' where suf: "suf = next n # suf'"
        by blast
      from 1(2) n False y obtain c where c: "call_cmp m (key n) k h = Inr c"
        and rest: "(if c = 0 then Some (map_add_update m v n h) else loop m k v (Node (next n)) h) =
                   Some (Inr (rc, m', h'))"
        by (auto split: sum.splits)
      show ?thesis
      proof (cases "c = 0")
        case True
        with rest have "map_add_update m v n h = Inr (rc, m', h')" by simp
        from map_add_update_shape [OF this] inv show ?thesis
          using table_inv_shape by blast
      next
        case False
        with rest y have l: "loop m k v (Node (next n)) h = Some y" by simp
        have sp': "ass ! i = (pre @ [next n]) @ suf'"
          using sp suf by simp
        have pos'': "(Node (next n) = Bucket i \<and> pre @ [next n] = []) \<or>
            (pre @ [next n] \<noteq> [] \<and> Node (next n) = Node (last (pre @ [next n])))"
          by simp
        from 1(1) [OF l] y wf hb os i ne sp' pos'' show ?thesis
          by blast
      qed
    qed
  qed
qed (rule assms)

lemma map_add_kv_wf:
  assumes inv: "table_inv m h" and run: "map_add_kv m k v h = Some (Inr (rc, m', h'))"
  shows "table_inv m' h'"
proof -
  from inv obtain ass where wf: "well_formed m h ass" and hb: "heap_below h" and os: "outcomes h = []"
    unfolding table_inv_def by blast
  from run obtain x where x: "call_hash m k h = Inr x" and bc: "buckets_count m \<noteq> 0"
    by (auto simp: map_add_kv_def split: sum.splits if_splits)
  define i where "i = unat (x mod buckets_count m)"
  have len: "unat (buckets_count m) = length (buckets m)"
    using wf by (simp add: well_formed_def chains_of_def)
  have i: "i < length (buckets m)"
    using unat_mod_less [OF bc, of x] len by (simp add: i_def)
  from run x bc i have
    br: "(if key (buckets m ! i) = NULL \<and> value (buckets m ! i) = NULL
          then Some (map_add_first m i (buckets m ! i) k v h)
          else map_add_loop m k v (Bucket i) h) = Some (Inr (rc, m', h'))"
    by (simp add: map_add_kv_def Let_def load_def i_def split del: if_split cong: if_cong)
  show ?thesis
  proof (cases "empty_slot (buckets m ! i)")
    case True
    with br have "map_add_first m i (buckets m ! i) k v h = Inr (rc, m', h')"
      by (simp add: empty_slot_def)
    from map_add_first_wf [OF wf hb os i True this] show ?thesis .
  next
    case False
    with br have l: "map_add_loop m k v (Bucket i) h = Some (Inr (rc, m', h'))"
      by (auto simp: empty_slot_def)
    have sp: "ass ! i = [] @ ass ! i" by simp
    from map_add_loop_wf_aux [OF l] wf hb os i False sp show ?thesis
      by blast
  qed
qed

lemma map_remove_found_last:
  assumes "key_free (type m) = Some kf" and "value_free (type m) = Some vf"
    and "key b \<noteq> NULL" and "mem h (key b) \<noteq> None"
    and "value b \<noteq> NULL" and "value b \<noteq> key b" and "mem h (value b) \<noteq> None"
    and "next b = NULL"
  shows "map_remove_found m (Bucket i) b None h =
     Inr (0, m\<lparr>buckets := (buckets m)[i := b\<lparr>key := NULL, value := NULL\<rparr>], length_m := length_m m - 1\<rparr>,
          h\<lparr>world := vf (value b) (mem h (value b)) (kf (key b) (mem h (key b)) (world h)),
            mem := (mem h)(key b := None, value b := None)\<rparr>)"
  using assms
  by (simp add: map_remove_found_def call_free_def free_def store_def Let_def)

lemma map_remove_found_disposers:
  "map_remove_found m r n prev h = Inr res \<Longrightarrow>
   \<exists>kf vf. key_free (type m) = Some kf \<and> value_free (type m) = Some vf"
  by (auto simp: map_remove_found_def call_free_def split: option.splits sum.splits)

lemma map_remove_found_head_wf:
  assumes wf: "well_formed m h ass" and hb: "heap_below h" and os: "outcomes h = []"
    and i: "i < length (buckets m)" and k: "key (buckets m ! i) \<noteq> NULL"
    and run: "map_remove_found m (Bucket i) (buckets m ! i) None h = Inr (rc, m', h')"
  shows "table_inv m' h'"
proof -
  let ?b = "buckets m ! i"
  note w = wf_nth [OF wf i]
  from k have ne: "\<not> empty_slot ?b" by (simp add: empty_slot_def)
  from map_remove_found_disposers [OF run] obtain kf vf where
    kf: "key_free (type m) = Some kf" and vf: "value_free (type m) = Some vf"
    by blast
  have hd: "\<exists>rest. blocks_of h ?b (ass ! i) = key ?b # value ?b # rest"
    using ne by (simp add: blocks_of_def)
  with w(6,7) have live: "mem h (key ?b) \<noteq> None" "value ?b \<noteq> NULL" "value ?b \<noteq> key ?b"
      "mem h (value ?b) \<noteq> None"
    by auto
  have "well_formed m' h' (ass[i := tl (ass ! i)]) \<and> (\<forall>a. nodes h' a \<noteq> None \<longrightarrow> nodes h a \<noteq> None) \<and>
      (\<forall>p. mem h' p \<noteq> None \<longrightarrow> mem h p \<noteq> None) \<and> brk h' = brk h \<and> outcomes h' = outcomes h"
  proof (cases "next ?b = NULL")
    case True
    from map_remove_found_last [OF kf vf k live True, of i] run have
      m': "m' = m\<lparr>buckets := (buckets m)[i := ?b\<lparr>key := NULL, value := NULL\<rparr>], length_m := length_m m - 1\<rparr>"
      and h': "h' = h\<lparr>world := vf (value ?b) (mem h (value ?b)) (kf (key ?b) (mem h (key ?b)) (world h)),
            mem := (mem h)(key ?b := None, value ?b := None)\<rparr>"
      by simp_all
    from True w(1) have nil: "ass ! i = []"
      by (simp add: chain_NULL)
    have e': "empty_slot (?b\<lparr>key := NULL, value := NULL\<rparr>)"
      by (simp add: empty_slot_def)
    have "well_formed m' h' (ass[i := []])"
    proof (rule wf_update [OF wf i])
      show "buckets m' = (buckets m)[i := ?b\<lparr>key := NULL, value := NULL\<rparr>]" by (simp add: m')
      show "buckets_count m' = buckets_count m" by (simp add: m')
      show "chain (nodes h') (next (?b\<lparr>key := NULL, value := NULL\<rparr>)) []" using True by simp
      show "empty_slot (?b\<lparr>key := NULL, value := NULL\<rparr>) \<longrightarrow> [] = []" by simp
      show "distinct ([] :: addr list)" by simp
      show "distinct (blocks_of h' (?b\<lparr>key := NULL, value := NULL\<rparr>) [])"
        using e' by (simp add: blocks_of_def)
      show "\<forall>p \<in> set (blocks_of h' (?b\<lparr>key := NULL, value := NULL\<rparr>) []). p \<noteq> NULL \<and> mem h' p \<noteq> None"
        using e' by (simp add: blocks_of_def)
    next
      fix j a
      show "nodes h' a = nodes h a" by (simp add: h')
    next
      fix j p
      assume j: "j < length (buckets m)" "j \<noteq> i" and p: "p \<in> set (blocks_of h (buckets m ! j) (ass ! j))"
      from wf_disjoint(2) [OF wf i j(1) j(2) [symmetric]] blocks_of_head [OF ne, of h "ass ! i"] p
      have "p \<noteq> key ?b" "p \<noteq> value ?b" by auto
      with wf_nth(7) [OF wf j(1)] p show "mem h' p \<noteq> None" by (simp add: h')
    next
      fix j
      show "set [] \<inter> set (ass ! j) = {} \<and>
          set (blocks_of h' (?b\<lparr>key := NULL, value := NULL\<rparr>) []) \<inter>
          set (blocks_of h (buckets m ! j) (ass ! j)) = {}"
        using e' by (simp add: blocks_of_def)
    qed
    with nil show ?thesis
      by (auto simp: h' split: if_splits)
  next
    case False
    from chain_nonnull [OF False w(1)] w(1) obtain n1 where n1: "nodes h (next ?b) = Some n1"
      by (auto split: option.splits)
    from map_remove_found_head [OF kf vf k live(1,2,3,4) False n1, of i] run have
      m': "m' = m\<lparr>buckets := (buckets m)[i := n1], length_m := length_m m - 1\<rparr>"
      and h': "h' = removed_head_heap kf vf ?b h"
      by simp_all
    from remove_head_well_formed [OF wf i False n1, of kf vf] show ?thesis
      unfolding m' h' by (auto simp: removed_head_heap_def split: if_splits)
  qed
  then show ?thesis
    using hb os unfolding table_inv_def heap_below_def by metis
qed

lemma map_remove_found_inner_effect:
  assumes run: "map_remove_found m (Node a) n (Some p) h = Inr (rc, m', h')"
    and ld: "load m h p = Some pn" and a: "a \<noteq> NULL" and k: "key n \<noteq> NULL" "value n \<noteq> NULL"
  shows "buckets_count m' = buckets_count m \<and> brk h' = brk h \<and> outcomes h' = outcomes h \<and>
         (\<forall>q. mem h' q \<noteq> None \<longleftrightarrow> mem h q \<noteq> None \<and> q \<noteq> key n \<and> q \<noteq> value n) \<and>
         (case p of
            Bucket j \<Rightarrow> buckets m' = (buckets m)[j := pn\<lparr>next := next n\<rparr>] \<and> nodes h' = (nodes h)(a := None)
          | Node a0 \<Rightarrow> buckets m' = buckets m \<and> nodes h' = (nodes h)(a0 \<mapsto> pn\<lparr>next := next n\<rparr>, a := None))"
proof -
  from map_remove_found_disposers [OF run] obtain kf vf where
    kf: "key_free (type m) = Some kf" and vf: "value_free (type m) = Some vf"
    by blast
  define h2 where "h2 = h\<lparr>world := vf (value n) (mem h (value n)) (kf (key n) (mem h (key n)) (world h))\<rparr>"
  define h4 where "h4 = h2\<lparr>mem := (mem h)(key n := None, value n := None)\<rparr>"
  have c: "call_free (key_free (type m)) (key n) h = Inr (h\<lparr>world := kf (key n) (mem h (key n)) (world h)\<rparr>)"
    "call_free (value_free (type m)) (value n) (h\<lparr>world := kf (key n) (mem h (key n)) (world h)\<rparr>) = Inr h2"
    by (simp_all add: call_free_def kf vf h2_def)
  from run c k have fr: "(case free (key n) h2 of Inl e \<Rightarrow> Inl e | Inr h3 \<Rightarrow> free (value n) h3) = Inr h4"
    by (auto simp: map_remove_found_def h4_def h2_def free_def split: sum.splits if_splits)
  have l4: "load m h4 p = Some pn"
    using ld by (cases p) (simp_all add: load_def h4_def h2_def)
  from run c fr l4 have
    res: "(let (m1, h5) = store p (pn\<lparr>next := next n\<rparr>) (m, h4)
           in (case free_node a h5 of Inl e \<Rightarrow> Inl e
               | Inr h6 \<Rightarrow> Inr (0, m1\<lparr>length_m := length_m m1 - 1\<rparr>, h6))) = Inr (rc, m', h')"
    by (auto simp: map_remove_found_def free_ref_def split: sum.splits)
  show ?thesis
  proof (cases p)
    case (Bucket j)
    with res a show ?thesis
      by (auto simp: store_def free_node_def h4_def h2_def split: sum.splits if_splits)
  next
    case (Node a0)
    with res a show ?thesis
      by (auto simp: store_def free_node_def h4_def h2_def split: sum.splits if_splits)
  qed
qed

lemma map_remove_found_inner_wf:
  assumes wf: "well_formed m h ass" and hb: "heap_below h" and os: "outcomes h = []"
    and i: "i < length (buckets m)" and sp: "ass ! i = pre @ a # suf"
    and pos: "(p = Bucket i \<and> pre = []) \<or> (pre \<noteq> [] \<and> p = Node (last pre))"
    and n: "nodes h a = Some n"
    and run: "map_remove_found m (Node a) n (Some p) h = Inr (rc, m', h')"
  shows "table_inv m' h'"
proof -
  let ?b = "buckets m ! i"
  let ?kv = "\<lambda>h a. case nodes h a of None \<Rightarrow> [] | Some n \<Rightarrow> [key n, value n]"
  note w = wf_nth [OF wf i]
  from sp w(2) have ne: "\<not> empty_slot ?b" by auto
  from pos_chain [OF wf i sp pos] obtain pn where
    pn: "load m h p = Some pn" and ch: "chain (nodes h) (next pn) (a # suf)"
    by blast
  from ch n have a: "a \<noteq> NULL" "next pn = a" and chs: "chain (nodes h) (next n) suf"
    by auto
  have dist: "distinct (pre @ a # suf)"
    using w(5) sp by simp
  define X where "X = blocks_of h ?b pre"
  define Y where "Y = concat (map (?kv h) suf)"
  have old: "blocks_of h ?b (ass ! i) = X @ [key n, value n] @ Y"
    using n by (simp add: sp blocks_of_append X_def Y_def)
  from w(6,7) old have kn: "key n \<noteq> NULL" "value n \<noteq> NULL" "key n \<noteq> value n"
      "key n \<notin> set X" "value n \<notin> set X" "key n \<notin> set Y" "value n \<notin> set Y" "distinct (X @ Y)"
      "\<forall>q \<in> set (X @ Y). q \<noteq> NULL \<and> mem h q \<noteq> None"
    by auto
  note eff = map_remove_found_inner_effect [OF run pn a(1) kn(1,2)]
  define b' where "b' = (case p of Bucket j \<Rightarrow> pn\<lparr>next := next n\<rparr> | Node a0 \<Rightarrow> ?b)"
  have pa: "p \<noteq> Node a"
    using pos dist by auto
  have b'b: "key b' = key ?b \<and> value b' = value ?b"
    using pos pn i by (auto simp: b'_def load_def)
  have bs': "buckets m' = (buckets m)[i := b']"
    using pos eff by (auto simp: b'_def)
  have nodes': "\<And>c. c \<noteq> a \<Longrightarrow> ?kv h' c = ?kv h c"
    using pos eff pn by (auto simp: load_def)
  have gone: "nodes h' a = None"
    using pos eff by auto
  have other: "\<And>c. c \<notin> set (ass ! i) \<Longrightarrow> nodes h' c = nodes h c"
    using pos eff sp by auto
  have new: "blocks_of h' b' (pre @ suf) = X @ Y"
  proof -
    have mp: "map (?kv h') xs = map (?kv h) xs" if "a \<notin> set xs" for xs
      using that nodes' by (induction xs) simp_all
    have apre: "a \<notin> set pre" and asuf: "a \<notin> set suf"
      using dist by simp_all
    have "blocks_of h' b' pre = blocks_of h ?b pre"
      unfolding blocks_of_def empty_slot_def mp [OF apre] using b'b by simp
    moreover have "concat (map (?kv h') suf) = Y"
      unfolding Y_def mp [OF asuf] by simp
    ultimately show ?thesis
      by (simp add: blocks_of_append X_def)
  qed
  have chain': "chain (nodes h') (next b') (pre @ suf)"
    using pos
  proof
    assume p: "p = Bucket i \<and> pre = []"
    with eff have "nodes h' = (nodes h)(a := None)" by simp
    moreover have "a \<notin> set suf" using dist by simp
    ultimately have "chain (nodes h') (next n) suf"
      using chain_frame [OF chs, of "nodes h'"] by simp
    with p show ?thesis by (simp add: b'_def)
  next
    assume p: "pre \<noteq> [] \<and> p = Node (last pre)"
    with eff have nh: "nodes h' = (nodes h)(last pre \<mapsto> pn\<lparr>next := next n\<rparr>, a := None)" by simp
    from p pn have "nodes h (last pre) = Some pn" by (simp add: load_def)
    from chain_unlink [OF _ _ dist this n, of "next ?b"] w(1) sp p have
      "chain ((nodes h)(last pre \<mapsto> pn\<lparr>next := next n\<rparr>, a := None)) (next ?b) (pre @ suf)"
      by simp
    with p nh show ?thesis by (simp add: b'_def)
  qed
  have "well_formed m' h' (ass[i := pre @ suf])"
  proof (rule wf_update [OF wf i bs'])
    show "buckets_count m' = buckets_count m" using eff by simp
    show "chain (nodes h') (next b') (pre @ suf)" by (rule chain')
    show "empty_slot b' \<longrightarrow> pre @ suf = []" using ne b'b by (auto simp: empty_slot_def)
    show "distinct (pre @ suf)" using dist by simp
    show "distinct (blocks_of h' b' (pre @ suf))" using new kn by simp
    show "\<forall>q \<in> set (blocks_of h' b' (pre @ suf)). q \<noteq> NULL \<and> mem h' q \<noteq> None"
      unfolding new using kn eff by auto
  next
    fix j c
    assume j: "j < length (buckets m)" "j \<noteq> i" and c: "c \<in> set (ass ! j)"
    with wf_disjoint(1) [OF wf i j(1) j(2) [symmetric]] have "c \<notin> set (ass ! i)" by auto
    then show "nodes h' c = nodes h c" by (rule other)
  next
    fix j q
    assume j: "j < length (buckets m)" "j \<noteq> i" and q: "q \<in> set (blocks_of h (buckets m ! j) (ass ! j))"
    from wf_disjoint(2) [OF wf i j(1) j(2) [symmetric]] q old have "q \<noteq> key n" "q \<noteq> value n"
      by auto
    with wf_nth(7) [OF wf j(1)] q eff show "mem h' q \<noteq> None" by simp
  next
    fix j
    assume j: "j < length (buckets m)" "j \<noteq> i"
    from wf_disjoint [OF wf i j(1) j(2) [symmetric]] sp old new
    show "set (pre @ suf) \<inter> set (ass ! j) = {} \<and>
          set (blocks_of h' b' (pre @ suf)) \<inter> set (blocks_of h (buckets m ! j) (ass ! j)) = {}"
      by auto
  qed
  moreover have "heap_below h'"
    unfolding heap_below_def
  proof (intro conjI allI impI)
    fix c assume c: "nodes h' c \<noteq> None"
    have "nodes h c \<noteq> None"
    proof (cases "c \<in> set (ass ! i)")
      case True
      from chain_live [OF w(1) True] show ?thesis by simp
    next
      case False
      from other [OF False] c show ?thesis by simp
    qed
    with hb eff show "c \<le> brk h'" by (simp add: heap_below_def)
  next
    fix q assume "mem h' q \<noteq> None"
    with eff have "mem h q \<noteq> None" by simp
    with hb eff show "q \<le> brk h'" by (simp add: heap_below_def)
  qed
  ultimately show ?thesis
    using eff os unfolding table_inv_def by auto
qed

lemma map_remove_loop_wf_aux:
  assumes "map_remove_loop m k node prev h = Some y"
  shows "\<forall>rc m' h' ass i. y = Inr (rc, m', h') \<longrightarrow> well_formed m h ass \<longrightarrow> heap_below h \<longrightarrow>
           outcomes h = [] \<longrightarrow> i < length (buckets m) \<longrightarrow>
           ((node = Some (Bucket i) \<and> prev = None) \<or>
            (\<exists>p pre suf. prev = Some p \<and> ass ! i = pre @ suf \<and>
               ((p = Bucket i \<and> pre = []) \<or> (pre \<noteq> [] \<and> p = Node (last pre))) \<and>
               (\<forall>pn. load m h p = Some pn \<longrightarrow> node = node_ptr (next pn)))) \<longrightarrow>
           table_inv m' h'"
proof (induct m k node prev h y rule: map_remove_loop.raw_induct)
  case (1 loop m k node prev h y)
  show ?case
  proof (intro allI impI)
    fix rc m' h' ass i
    assume y: "y = Inr (rc, m', h')" and wf: "well_formed m h ass" and hb: "heap_below h"
      and os: "outcomes h = []" and i: "i < length (buckets m)"
      and st: "(node = Some (Bucket i) \<and> prev = None) \<or>
            (\<exists>p pre suf. prev = Some p \<and> ass ! i = pre @ suf \<and>
               ((p = Bucket i \<and> pre = []) \<or> (pre \<noteq> [] \<and> p = Node (last pre))) \<and>
               (\<forall>pn. load m h p = Some pn \<longrightarrow> node = node_ptr (next pn)))"
    have inv: "table_inv m h"
      using wf hb os unfolding table_inv_def by blast
    have step: "table_inv m' h'"
      if l: "loop m k node' (Some p) h = Some y" and sp: "ass ! i = pre @ suf"
        and pos: "(p = Bucket i \<and> pre = []) \<or> (pre \<noteq> [] \<and> p = Node (last pre))"
        and nd: "\<forall>pn. load m h p = Some pn \<longrightarrow> node' = node_ptr (next pn)"
      for node' p pre suf
    proof -
      from sp pos nd have "\<exists>p' pre suf. Some p = Some p' \<and> ass ! i = pre @ suf \<and>
               ((p' = Bucket i \<and> pre = []) \<or> (pre \<noteq> [] \<and> p' = Node (last pre))) \<and>
               (\<forall>pn. load m h p' = Some pn \<longrightarrow> node' = node_ptr (next pn))"
        by blast
      with 1(1) [OF l] y wf hb os i show ?thesis
        by blast
    qed
    from st consider (head) "node = Some (Bucket i)" "prev = None"
      | (inner) p pre suf where "prev = Some p" "ass ! i = pre @ suf"
          "(p = Bucket i \<and> pre = []) \<or> (pre \<noteq> [] \<and> p = Node (last pre))"
          "\<forall>pn. load m h p = Some pn \<longrightarrow> node = node_ptr (next pn)"
      by blast
    then show "table_inv m' h'"
    proof cases
      case head
      then have nd: "node = Some (Bucket i)" and pv: "prev = None" by simp_all
      let ?b = "buckets m ! i"
      have ld: "load m h (Bucket i) = Some ?b"
        using i by (simp add: load_def)
      have sp: "ass ! i = [] @ ass ! i" by simp
      have nx: "\<forall>pn. load m h (Bucket i) = Some pn \<longrightarrow> node_ptr (next ?b) = node_ptr (next pn)"
        using ld by simp
      show ?thesis
      proof (cases "key ?b = NULL")
        case True
        with 1(2) nd ld have "loop m k (node_ptr (next ?b)) (Some (Bucket i)) h = Some y"
          by simp
        from step [OF this sp _ nx] show ?thesis by simp
      next
        case False
        with 1(2) nd ld pv y obtain c where c: "call_cmp m (key ?b) k h = Inr c"
          and rest: "(if c = 0 then Some (map_remove_found m (Bucket i) ?b None h)
                      else loop m k (node_ptr (next ?b)) (Some (Bucket i)) h) = Some y"
          by (auto split: sum.splits)
        show ?thesis
        proof (cases "c = 0")
          case True
          with rest y have "map_remove_found m (Bucket i) ?b None h = Inr (rc, m', h')" by simp
          from map_remove_found_head_wf [OF wf hb os i False this] show ?thesis .
        next
          case False
          with rest have "loop m k (node_ptr (next ?b)) (Some (Bucket i)) h = Some y" by simp
          from step [OF this sp _ nx] show ?thesis by simp
        qed
      qed
    next
      case (inner p pre suf)
      then have pv: "prev = Some p" and sp: "ass ! i = pre @ suf"
        and pos: "(p = Bucket i \<and> pre = []) \<or> (pre \<noteq> [] \<and> p = Node (last pre))"
        and nd: "\<forall>pn. load m h p = Some pn \<longrightarrow> node = node_ptr (next pn)"
        by simp_all
      from pos_chain [OF wf i sp pos] obtain pn where
        pn: "load m h p = Some pn" and ch: "chain (nodes h) (next pn) suf"
        by blast
      from nd pn have node: "node = node_ptr (next pn)" by simp
      show ?thesis
      proof (cases "next pn = NULL")
        case True
        with 1(2) node y have "m' = m" "h' = h" by simp_all
        with inv show ?thesis by simp
      next
        case False
        let ?a = "next pn"
        from chain_nonnull [OF False ch] obtain suf' where suf: "suf = ?a # suf'"
          by blast
        with ch obtain n where n: "nodes h ?a = Some n"
          by (auto split: option.splits)
        have nodeS: "node = Some (Node ?a)" and ld: "load m h (Node ?a) = Some n"
          using node False n by (simp_all add: load_def)
        have sp': "ass ! i = (pre @ [?a]) @ suf'" and sp'': "ass ! i = pre @ ?a # suf'"
          using sp suf by simp_all
        have pos': "(Node ?a = Bucket i \<and> pre @ [?a] = []) \<or> (pre @ [?a] \<noteq> [] \<and> Node ?a = Node (last (pre @ [?a])))"
          by simp
        have nx: "\<forall>pn'. load m h (Node ?a) = Some pn' \<longrightarrow> node_ptr (next n) = node_ptr (next pn')"
          using ld by simp
        show ?thesis
        proof (cases "key n = NULL")
          case True
          with 1(2) nodeS ld have "loop m k (node_ptr (next n)) (Some (Node ?a)) h = Some y"
            by simp
          from step [OF this sp' pos' nx] show ?thesis .
        next
          case False
          with 1(2) nodeS ld pv y obtain c where c: "call_cmp m (key n) k h = Inr c"
            and rest: "(if c = 0 then Some (map_remove_found m (Node ?a) n (Some p) h)
                        else loop m k (node_ptr (next n)) (Some (Node ?a)) h) = Some y"
            by (auto split: sum.splits)
          show ?thesis
          proof (cases "c = 0")
            case True
            with rest y have "map_remove_found m (Node ?a) n (Some p) h = Inr (rc, m', h')" by simp
            from map_remove_found_inner_wf [OF wf hb os i sp'' pos n this] show ?thesis .
          next
            case False
            with rest have "loop m k (node_ptr (next n)) (Some (Node ?a)) h = Some y" by simp
            from step [OF this sp' pos' nx] show ?thesis .
          qed
        qed
      qed
    qed
  qed
qed (rule assms)

lemma map_remove_wf:
  assumes inv: "table_inv m h" and run: "map_remove m k h = Some (Inr (rc, m', h'))"
  shows "table_inv m' h'"
proof -
  from inv obtain ass where wf: "well_formed m h ass" and hb: "heap_below h" and os: "outcomes h = []"
    unfolding table_inv_def by blast
  from run obtain x where x: "call_hash m k h = Inr x" and bc: "buckets_count m \<noteq> 0"
    by (auto simp: map_remove_def split: sum.splits if_splits)
  define i where "i = unat (x mod buckets_count m)"
  have len: "unat (buckets_count m) = length (buckets m)"
    using wf by (simp add: well_formed_def chains_of_def)
  have i: "i < length (buckets m)"
    using unat_mod_less [OF bc, of x] len by (simp add: i_def)
  from run x bc have l: "map_remove_loop m k (Some (Bucket i)) None h = Some (Inr (rc, m', h'))"
    by (simp add: map_remove_def i_def)
  from map_remove_loop_wf_aux [OF l] wf hb os i show ?thesis
    by blast
qed

lemma map_new_wf:
  assumes hb: "heap_below h" and os: "outcomes h = []" and new: "map_new ty n h = (Some m, h')"
  shows "table_inv m h'"
proof -
  from new os have h': "h' = h"
    and bs: "buckets m = replicate (unat n) \<lparr>key = NULL, value = NULL, next = NULL\<rparr>"
    and bc: "buckets_count m = n"
    by (auto simp: map_new_def alloc_ok_empty Let_def)
  have "well_formed m h (replicate (unat n) [])"
  proof (rule wf_intro)
    show "unat (buckets_count m) = length (buckets m)" by (simp add: bs bc)
    show "length (replicate (unat n) ([] :: addr list)) = length (buckets m)" by (simp add: bs)
  next
    fix j assume "j < length (buckets m)"
    then show "chain (nodes h) (next (buckets m ! j)) (replicate (unat n) [] ! j) \<and>
           (empty_slot (buckets m ! j) \<longrightarrow> replicate (unat n) [] ! j = []) \<and>
           distinct (replicate (unat n) [] ! j) \<and>
           distinct (blocks_of h (buckets m ! j) (replicate (unat n) [] ! j)) \<and>
           (\<forall>p \<in> set (blocks_of h (buckets m ! j) (replicate (unat n) [] ! j)). p \<noteq> NULL \<and> mem h p \<noteq> None)"
      by (simp add: bs blocks_of_def empty_slot_def)
  next
    fix j k assume "j < length (buckets m)" "k < length (buckets m)"
    then show "set (replicate (unat n) [] ! j) \<inter> set (replicate (unat n) [] ! k) = {} \<and>
           set (blocks_of h (buckets m ! j) (replicate (unat n) [] ! j)) \<inter>
           set (blocks_of h (buckets m ! k) (replicate (unat n) [] ! k)) = {}"
      by (simp add: bs blocks_of_def empty_slot_def)
  qed
  with hb os h' show ?thesis
    unfolding table_inv_def by blast
qed

lemma built_inv: "built m h \<Longrightarrow> table_inv m h"
proof (induction rule: built.induct)
  case (construct h ty n m h')
  then show ?case using map_new_wf by blast
next
  case (insert m h k v rc m' h')
  then show ?case using map_add_kv_wf by blast
next
  case (remove m h k rc m' h')
  then show ?case using map_remove_wf by blast
next
  case (client m h h')
  from client.IH obtain ass where wf: "well_formed m h ass" and hb: "heap_below h"
    unfolding table_inv_def by blast
  from client.hyps(6) wf have live: "\<forall>p \<in> set (concat (map2 (blocks_of h) (buckets m) ass)). mem h' p \<noteq> None"
    by blast
  have "well_formed m h' ass"
    using wf live unfolding well_formed_def chains_of_def blocks_of_nodes [OF client.hyps(2)] client.hyps(2)
    by blast
  moreover have "heap_below h'"
    using hb client.hyps(2,4,5) by (auto simp: heap_below_def)
  ultimately show ?case
    using client.hyps(3) unfolding table_inv_def by blast
qed

lemma built_reachable: "built m h \<Longrightarrow> reachable m h"
proof (induction rule: built.induct)
  case (client m h h')
  have "h' = h\<lparr>mem := mem h', brk := brk h', outcomes := outcomes h', world := world h'\<rparr>"
    using client.hyps(2) by simp
  moreover have "reachable m (h\<lparr>mem := mem h', brk := brk h', outcomes := outcomes h', world := world h'\<rparr>)"
    using client.IH by (rule reachable.client)
  ultimately show ?case
    by simp
qed (auto intro: reachable.intros)

lemma built_well_formed: "built m h \<Longrightarrow> \<exists>ass. well_formed m h ass \<and> chains_of m h ass"
  using built_inv [of m h] by (auto simp: table_inv_def well_formed_def)

lemma chained_built: "built chained_table chained_heap"
proof -
  let ?m0 = "\<lparr>type = log_type, length_m = 0, buckets_count = 2,
              buckets = [\<lparr>key = NULL, value = NULL, next = NULL\<rparr>,
                         \<lparr>key = NULL, value = NULL, next = NULL\<rparr>]\<rparr>"
  have s0: "map_new log_type 2 log_client_heap = (Some ?m0, log_client_heap)"
    by (simp add: map_new_def alloc_ok_def log_type_def log_client_heap_def Let_def replicate_2)
  have hb: "heap_below log_client_heap"
    by (simp add: heap_below_def log_client_heap_def)
  have r0: "built ?m0 log_client_heap"
    by (rule built.construct [OF _ hb _ s0]) (simp_all add: log_client_heap_def)
  have "\<exists>m1 h1 m2 h2 m3 h3.
      map_add_kv ?m0 1 5 log_client_heap = Some (Inr (0, m1, h1)) \<and>
      map_add_kv m1 2 6 h1 = Some (Inr (0, m2, h2)) \<and>
      map_add_kv m2 4 8 h2 = Some (Inr (0, m3, h3)) \<and>
      map_add_kv m3 3 7 h3 = Some (Inr (0, chained_table, chained_heap))"
    by (simp add: engine_defs log_client_heap_def chained_defs map_add_loop.simps Let_def)
  then show ?thesis
    using r0 built.insert by metis
qed

end
